theory Spec2Isabelle
  imports Main "HOL-Library.Word"
begin

section \<open>The QEMU instance driver (driver\_qemu.go)\<close>

text \<open>
  A shallow embedding of the parts of \<^verbatim>\<open>internal/server/instance/drivers/driver_qemu.go\<close>
  that decide the properties below. Calls that leave the driver (QMP monitor, file system,
  operation locks, storage) are inputs of the model: an environment record gives their
  results, and a log records which of them the driver issued and in which order.
\<close>

subsection \<open>Operation locks\<close>

text \<open>The action tags of package operationlock that the driver uses.\<close>

datatype action =
    ActionCreate
  | ActionStart
  | ActionStop
  | ActionRestart
  | ActionRestore
  | ActionUpdate
  | ActionDelete
  | ActionMigrate
  | ActionConsoleRetrieve

text \<open>
  The arguments of one call of \<^verbatim>\<open>operationlock.CreateWaitGet(project, name, d.op, action,
  inheritableActions, createReusable, reuseExisting)\<close>. \<^verbatim>\<open>operationlock.Create\<close> has no
  inheritable actions parameter; its calls are recorded with the empty list.
\<close>

record lock_request =
  req_action :: action
  inheritableActions :: "action list"
  createReusable :: bool
  reuseExisting :: bool

text \<open>The functions of the driver that create an operation lock.\<close>

datatype lock_site =
    Site_onStop
  | Site_Shutdown
  | Site_start
  | Site_Stop
  | Site_Restore
  | Site_Update
  | Site_Delete
  | Site_MigrateSend
  | Site_LockExclusive
  | Site_ConsoleLog

text \<open>What each of them passes, in the order of the source file.\<close>

fun lock_request_of :: "lock_site \<Rightarrow> lock_request" where
  "lock_request_of Site_onStop =
     \<lparr>req_action = ActionRestart, inheritableActions = [],
      createReusable = True, reuseExisting = False\<rparr>"
| "lock_request_of Site_Shutdown =
     \<lparr>req_action = ActionStop, inheritableActions = [ActionRestart],
      createReusable = True, reuseExisting = True\<rparr>"
| "lock_request_of Site_start =
     \<lparr>req_action = ActionStart, inheritableActions = [ActionRestart, ActionRestore],
      createReusable = False, reuseExisting = False\<rparr>"
| "lock_request_of Site_Stop =
     \<lparr>req_action = ActionStop,
      inheritableActions = [ActionRestart, ActionRestore, ActionMigrate],
      createReusable = False, reuseExisting = True\<rparr>"
| "lock_request_of Site_Restore =
     \<lparr>req_action = ActionRestore, inheritableActions = [],
      createReusable = False, reuseExisting = False\<rparr>"
| "lock_request_of Site_Update =
     \<lparr>req_action = ActionUpdate, inheritableActions = [ActionRestart, ActionRestore],
      createReusable = False, reuseExisting = False\<rparr>"
| "lock_request_of Site_Delete =
     \<lparr>req_action = ActionDelete, inheritableActions = [],
      createReusable = False, reuseExisting = False\<rparr>"
| "lock_request_of Site_MigrateSend =
     \<lparr>req_action = ActionMigrate, inheritableActions = [],
      createReusable = False, reuseExisting = True\<rparr>"
| "lock_request_of Site_LockExclusive =
     \<lparr>req_action = ActionCreate, inheritableActions = [],
      createReusable = False, reuseExisting = False\<rparr>"
| "lock_request_of Site_ConsoleLog =
     \<lparr>req_action = ActionConsoleRetrieve,
      inheritableActions = [ActionRestart, ActionRestore, ActionMigrate],
      createReusable = False, reuseExisting = True\<rparr>"

subsection \<open>statusCode\<close>

datatype status_code = Stopped | Running | Ready | Frozen | Error

datatype qmp_err = ErrMonitorDisconnect | ErrOther

text \<open>What statusCode consults outside the operation lock and the local configuration.\<close>

datatype probe = Probe_qmpConnect | Probe_Status | Probe_pid

text \<open>
  The inputs of statusCode: the action of the instance's current operation lock
  (\<open>None\<close> when \<^verbatim>\<open>operationlock.Get\<close> returns nil), the value of
  \<^verbatim>\<open>volatile.last_state.ready\<close>, whether the monitor can be reached, what
  \<^verbatim>\<open>monitor.Status()\<close> answers, and the process ID that \<^verbatim>\<open>d.pid()\<close> gives.
\<close>

record status_env =
  op_action :: "action option"
  last_state_ready :: string
  qmp_connects :: bool
  monitor_status :: "qmp_err + string"
  env_pid :: int

text \<open>\<^verbatim>\<open>util.IsTrue\<close> is outside the driver and is a parameter.\<close>

definition status_of_pid :: "status_env \<Rightarrow> status_code" where
  "status_of_pid e = (if env_pid e > 0 then Error else Stopped)"

definition statusCode :: "(string \<Rightarrow> bool) \<Rightarrow> status_env \<Rightarrow> status_code \<times> probe list" where
  "statusCode isTrue e =
     (if op_action e = Some ActionStart then (Stopped, [])
      else if op_action e = Some ActionStop then
        (if isTrue (last_state_ready e) then (Ready, []) else (Running, []))
      else if \<not> qmp_connects e then (status_of_pid e, [Probe_qmpConnect, Probe_pid])
      else
        (case monitor_status e of
           Inl err \<Rightarrow>
             (if err = ErrMonitorDisconnect
              then (status_of_pid e, [Probe_qmpConnect, Probe_Status, Probe_pid])
              else (Error, [Probe_qmpConnect, Probe_Status]))
         | Inr status \<Rightarrow>
             (if status = ''prelaunch'' \<or> status = ''running'' then
                (if status = ''running'' \<and> isTrue (last_state_ready e) then Ready else Running)
              else if status \<in> set [''inmigrate'', ''postmigrate'', ''finish-migrate'',
                                      ''save-vm'', ''suspended'', ''paused''] then Frozen
              else Error,
              [Probe_qmpConnect, Probe_Status])))"

subsection \<open>Straight-line functions with a reverter\<close>

text \<open>
  start and migrateSendLive are long sequences of calls, each followed by
  \<^verbatim>\<open>if err != nil { return err }\<close>, between which they register closures on a
  \<^verbatim>\<open>revert.Reverter\<close> and with \<^verbatim>\<open>defer\<close>. Such a function is a list of instructions:
  a call that may fail (the function then returns), a call whose failure runs a closure
  before returning, an action whose error is only logged, \<^verbatim>\<open>reverter.Add\<close>,
  \<^verbatim>\<open>reverter.Success\<close>, \<^verbatim>\<open>defer\<close> of a closure and \<^verbatim>\<open>defer reverter.Fail()\<close>.
  The calls and the closures are those of the function modelled; what a call does to the
  world, and whether it fails, is given by the function \<open>call\<close>, what a closure does by
  \<open>undo\<close>.
\<close>

datatype ('c, 'r) instr =
    Call 'c
  | CallOnFail 'c 'r
  | Do 'r
  | RevertAdd 'r
  | RevertSuccess
  | Defer 'r
  | DeferRevertFail

text \<open>An entry of the function's stack of deferred calls.\<close>

datatype 'r deferred = Deferred 'r | Deferred_RevertFail

text \<open>
  The state of a running function: the world, the closures on the reverter and the
  deferred calls, the latest first in both.
\<close>

record ('w, 'r) frame =
  world :: 'w
  reverter :: "'r list"
  defers :: "'r deferred list"

text \<open>\<^verbatim>\<open>reverter.Fail()\<close> runs the closures, the latest first.\<close>

fun run_closures :: "('r \<Rightarrow> 'w \<Rightarrow> 'w) \<Rightarrow> 'r list \<Rightarrow> 'w \<Rightarrow> 'w" where
  "run_closures undo [] w = w"
| "run_closures undo (r # rs) w = run_closures undo rs (undo r w)"

text \<open>
  Returning runs the deferred calls, the latest first; a deferred \<^verbatim>\<open>reverter.Fail()\<close>
  runs the closures that the reverter still holds.
\<close>

fun run_defers :: "('r \<Rightarrow> 'w \<Rightarrow> 'w) \<Rightarrow> 'r deferred list \<Rightarrow> 'r list \<Rightarrow> 'w \<Rightarrow> 'w" where
  "run_defers undo [] rv w = w"
| "run_defers undo (Deferred r # ds) rv w = run_defers undo ds rv (undo r w)"
| "run_defers undo (Deferred_RevertFail # ds) rv w = run_defers undo ds [] (run_closures undo rv w)"

text \<open>One instruction: the frame after it, or the failed call and the frame at the return.\<close>

fun step ::
  "('c \<Rightarrow> 'w \<Rightarrow> bool \<times> 'w) \<Rightarrow> ('r \<Rightarrow> 'w \<Rightarrow> 'w) \<Rightarrow> ('c, 'r) instr \<Rightarrow> ('w, 'r) frame
     \<Rightarrow> 'c \<times> ('w, 'r) frame + ('w, 'r) frame" where
  "step call undo (Call c) f =
     (if fst (call c (world f)) then Inr (f\<lparr>world := snd (call c (world f))\<rparr>)
      else Inl (c, f\<lparr>world := snd (call c (world f))\<rparr>))"
| "step call undo (CallOnFail c r) f =
     (if fst (call c (world f)) then Inr (f\<lparr>world := snd (call c (world f))\<rparr>)
      else Inl (c, f\<lparr>world := undo r (snd (call c (world f)))\<rparr>))"
| "step call undo (Do r) f = Inr (f\<lparr>world := undo r (world f)\<rparr>)"
| "step call undo (RevertAdd r) f = Inr (f\<lparr>reverter := r # reverter f\<rparr>)"
| "step call undo RevertSuccess f = Inr (f\<lparr>reverter := []\<rparr>)"
| "step call undo (Defer r) f = Inr (f\<lparr>defers := Deferred r # defers f\<rparr>)"
| "step call undo DeferRevertFail f = Inr (f\<lparr>defers := Deferred_RevertFail # defers f\<rparr>)"

fun steps ::
  "('c \<Rightarrow> 'w \<Rightarrow> bool \<times> 'w) \<Rightarrow> ('r \<Rightarrow> 'w \<Rightarrow> 'w) \<Rightarrow> ('c, 'r) instr list \<Rightarrow> ('w, 'r) frame
     \<Rightarrow> 'c \<times> ('w, 'r) frame + ('w, 'r) frame" where
  "steps call undo [] f = Inr f"
| "steps call undo (i # prog) f =
     (case step call undo i f of
        Inl failure \<Rightarrow> Inl failure
      | Inr f' \<Rightarrow> steps call undo prog f')"

text \<open>
  Running a function: the call at which it returned early (\<open>None\<close> when it reached
  its end) and the world once the deferred calls have run.
\<close>

definition leave :: "('r \<Rightarrow> 'w \<Rightarrow> 'w) \<Rightarrow> ('w, 'r) frame \<Rightarrow> 'w" where
  "leave undo f = run_defers undo (defers f) (reverter f) (world f)"

definition run ::
  "('c \<Rightarrow> 'w \<Rightarrow> bool \<times> 'w) \<Rightarrow> ('r \<Rightarrow> 'w \<Rightarrow> 'w) \<Rightarrow> ('c, 'r) instr list \<Rightarrow> 'w \<Rightarrow> 'c option \<times> 'w" where
  "run call undo prog w =
     (case steps call undo prog \<lparr>world = w, reverter = [], defers = []\<rparr> of
        Inl (c, f) \<Rightarrow> (Some c, leave undo f)
      | Inr f \<Rightarrow> (None, leave undo f))"

text \<open>The calls of a function, in program order.\<close>

fun calls_of :: "('c, 'r) instr list \<Rightarrow> 'c list" where
  "calls_of [] = []"
| "calls_of (Call c # prog) = c # calls_of prog"
| "calls_of (CallOnFail c r # prog) = c # calls_of prog"
| "calls_of (i # prog) = calls_of prog"

definition frame_of :: "'c \<times> ('w, 'r) frame + ('w, 'r) frame \<Rightarrow> ('w, 'r) frame" where
  "frame_of res = (case res of Inl (c, f) \<Rightarrow> f | Inr f \<Rightarrow> f)"

subsection \<open>start\<close>

text \<open>
  The calls of start that can make it return an error, in the order of the source, from
  the point where the operation lock is held. A call that start makes only under a
  condition (balancing NUMA nodes, setting up NVRAM, the startup snapshot, the cluster CPU
  flags, dropping privileges, restoring state, and so on) stands in the list as well: when
  the condition is false the call is one that succeeds. The loops over the files to rotate
  and over the vCPUs to pin are one call each; the loops over the devices have one call for
  each device.
\<close>

datatype start_call =
    C_balanceNUMANodes
  | C_LoadModule
  | C_rotate_logs
  | C_remove_pid_file
  | C_mount
  | C_nextVsockID
  | C_generateConfigShare
  | C_MkdirAll_LogPath
  | C_MkdirAll_RunPath
  | C_MkdirAll_DevicesPath
  | C_MkdirAll_ShmountsPath
  | C_Lstat_nvram
  | C_setupNvram
  | C_VolatileSet
  | C_deviceLoad string
  | C_PreStartCheck string
  | C_deviceStart string
  | C_configDriveMountPathClear
  | C_Mkdir_configMntPath
  | C_DiskMount
  | C_qemuArchConfig
  | C_getStartupSnapNameAndExpiry
  | C_snapshot
  | C_cpuTopology
  | C_cluster_group_config
  | C_ArchitectureName
  | C_GetClusterCPUFlags
  | C_generateQemuConfig
  | C_remove_state
  | C_UpdateInstanceStatefulFlag
  | C_chown_nvram
  | C_chmod_nvram
  | C_chown_path
  | C_chown_config
  | C_HugepagesPath
  | C_shellquote_Split
  | C_QEMUSet
  | C_config_hook
  | C_writeQemuConfigFile
  | C_NewProcess
  | C_apparmor_InstanceLoad
  | C_UpdateBackupFile
  | C_StartWithFiles
  | C_Wait
  | C_pid
  | C_qmpConnect
  | C_MachineDefinition
  | C_VolatileSet_definition
  | C_early_hook
  | C_setCPUs
  | C_GetCPUs
  | C_vcpu_count
  | C_SchedSetaffinity
  | C_setCoreSched
  | C_monHooks
  | C_pre_start_hook
  | C_Reset
  | C_SetAction
  | C_restoreState
  | C_monitor_Start
  | C_UpdateInstanceStatefulFlag_started
  | C_recordLastState
  | C_post_start_hook
  | C_runHooks

text \<open>
  The closures that start registers on its reverter (\<open>R_\<close>) or defers (\<open>D_\<close>), and
  the call of \<^verbatim>\<open>d.Stop(false)\<close> that it makes when a post-start hook fails. start
  defers \<^verbatim>\<open>op.Done(err)\<close> and also calls it before each \<^verbatim>\<open>return err\<close>; the
  deferred call stands for both: once start has returned the operation is done.
\<close>

datatype start_closure =
    R_unmount
  | R_deviceStop string
  | R_runConf_Revert string
  | R_configDriveMountPathClear
  | R_killQemuProcess
  | R_Stop
  | D_closeFiles
  | D_opDone

text \<open>
  An entry of the sorted expanded devices: its name, whether \<^verbatim>\<open>deviceLoad\<close> accepts
  its type (an unsupported device is skipped), and whether the run configuration that
  \<^verbatim>\<open>deviceStart\<close> returns carries a revert hook.
\<close>

record start_device =
  dev_name :: string
  dev_supported :: bool
  dev_revert :: bool

text \<open>
  What start acquires: the mounted config volume, the started devices, the config drive
  mount path, the QEMU process, the volatile keys it has written to the database, the
  operation lock; and the closures that have run so far, in the order in which they ran.
  The QEMU process is there from the moment \<^verbatim>\<open>p.StartWithFiles\<close> has spawned it until
  start kills it, unless the environment says otherwise at a failed \<^verbatim>\<open>p.Wait\<close> or
  \<^verbatim>\<open>d.pid()\<close>.
\<close>

record start_world =
  config_mounted :: bool
  started_devices :: "string list"
  config_drive_path :: bool
  qemu_running :: bool
  volatile_written :: bool
  op_lock_held :: bool
  cleanup :: "start_closure list"

text \<open>
  The environment: which calls succeed; whether a QEMU process of the instance is left
  when \<^verbatim>\<open>p.Wait\<close> reports an error (the launcher has then exited with a failure; the
  \<^verbatim>\<open>subprocess\<close> package and QEMU are outside the driver); what \<^verbatim>\<open>d.pid()\<close> returns
  after the launch (the process ID, and whether with an error), and whether the QEMU
  process is still there when it has given no process ID (it gives none when it cannot
  read the PID file or the command line of the process, and when they do not match);
  and whether \<^verbatim>\<open>unmount\<close>, \<^verbatim>\<open>killQemuProcess\<close>, \<^verbatim>\<open>deviceStop\<close> and
  \<^verbatim>\<open>Stop\<close> do what they are called for (the closures drop or only log their errors).
\<close>

record start_env =
  call_ok :: "start_call \<Rightarrow> bool"
  Wait_leaves_qemu :: bool
  pid_value :: int
  pid_error :: bool
  pid_leaves_qemu :: bool
  unmount_ok :: bool
  kill_ok :: bool
  deviceStop_ok :: "string \<Rightarrow> bool"
  Stop_ok :: bool

text \<open>What a call that succeeds acquires.\<close>

fun start_effect :: "start_call \<Rightarrow> start_world \<Rightarrow> start_world" where
  "start_effect C_mount w = w\<lparr>config_mounted := True\<rparr>"
| "start_effect (C_deviceStart name) w = w\<lparr>started_devices := name # started_devices w\<rparr>"
| "start_effect C_Mkdir_configMntPath w = w\<lparr>config_drive_path := True\<rparr>"
| "start_effect C_VolatileSet w = w\<lparr>volatile_written := True\<rparr>"
| "start_effect C_StartWithFiles w = w\<lparr>qemu_running := True\<rparr>"
| "start_effect c w = w"

text \<open>
  What a call that fails leaves. \<^verbatim>\<open>p.Wait\<close> waits for the launcher that
  \<^verbatim>\<open>p.StartWithFiles\<close> has spawned (QEMU started with \<^verbatim>\<open>-daemonize\<close>): when it
  reports an error the environment says whether a QEMU process is left, and so it does
  when \<^verbatim>\<open>d.pid()\<close> gives no process ID. Neither call does anything to the process.
  Any other call that fails has acquired nothing and leaves the world as it was.
\<close>

fun start_failure :: "start_env \<Rightarrow> start_call \<Rightarrow> start_world \<Rightarrow> start_world" where
  "start_failure e C_Wait w = w\<lparr>qemu_running := Wait_leaves_qemu e\<rparr>"
| "start_failure e C_pid w = w\<lparr>qemu_running := pid_leaves_qemu e\<rparr>"
| "start_failure e c w = w"

text \<open>
  start returns after \<^verbatim>\<open>d.pid()\<close> when \<^verbatim>\<open>err != nil || pid <= 0\<close> (it returns
  \<^verbatim>\<open>err\<close>, which is nil when \<^verbatim>\<open>d.pid()\<close> has given 0 without an error; the deferred
  \<^verbatim>\<open>reverter.Fail()\<close> runs all the same); every other call makes it return when it
  fails.
\<close>

definition start_succeeds :: "start_env \<Rightarrow> start_call \<Rightarrow> bool" where
  "start_succeeds e c =
     (if c = C_pid then \<not> (pid_error e \<or> pid_value e \<le> 0) else call_ok e c)"

definition start_call_sem :: "start_env \<Rightarrow> start_call \<Rightarrow> start_world \<Rightarrow> bool \<times> start_world" where
  "start_call_sem e c w =
     (if start_succeeds e c then (True, start_effect c w) else (False, start_failure e c w))"

text \<open>What the closures release.\<close>

fun start_closure_effect :: "start_env \<Rightarrow> start_closure \<Rightarrow> start_world \<Rightarrow> start_world" where
  "start_closure_effect e R_unmount w = (if unmount_ok e then w\<lparr>config_mounted := False\<rparr> else w)"
| "start_closure_effect e (R_deviceStop name) w =
     (if deviceStop_ok e name then w\<lparr>started_devices := remove1 name (started_devices w)\<rparr> else w)"
| "start_closure_effect e (R_runConf_Revert name) w = w"
| "start_closure_effect e R_configDriveMountPathClear w = w\<lparr>config_drive_path := False\<rparr>"
| "start_closure_effect e R_killQemuProcess w = (if kill_ok e then w\<lparr>qemu_running := False\<rparr> else w)"
| "start_closure_effect e R_Stop w = (if Stop_ok e then w\<lparr>qemu_running := False\<rparr> else w)"
| "start_closure_effect e D_closeFiles w = w"
| "start_closure_effect e D_opDone w = w\<lparr>op_lock_held := False\<rparr>"

definition start_undo :: "start_env \<Rightarrow> start_closure \<Rightarrow> start_world \<Rightarrow> start_world" where
  "start_undo e r w = (start_closure_effect e r w)\<lparr>cleanup := cleanup w @ [r]\<rparr>"

text \<open>The function, in pieces: up to the mount of the config volume;\<close>

type_synonym start_prog = "(start_call, start_closure) instr list"

definition start_begin :: start_prog where
  "start_begin =
     [Defer D_opDone,
      Call C_balanceNUMANodes,
      Call C_LoadModule,
      DeferRevertFail,
      Call C_rotate_logs,
      Call C_remove_pid_file,
      Call C_mount,
      RevertAdd R_unmount]"

text \<open>the vsock ID, the config share, the paths, NVRAM and the volatile keys;\<close>

definition start_prepare :: start_prog where
  "start_prepare =
     [Defer D_closeFiles,
      Call C_nextVsockID,
      Call C_generateConfigShare,
      Call C_MkdirAll_LogPath,
      Call C_MkdirAll_RunPath,
      Call C_MkdirAll_DevicesPath,
      Call C_MkdirAll_ShmountsPath,
      Call C_Lstat_nvram,
      Call C_setupNvram,
      Call C_VolatileSet]"

text \<open>loading and checking all devices, then starting them;\<close>

fun start_load_devices :: "start_device list \<Rightarrow> start_prog" where
  "start_load_devices [] = []"
| "start_load_devices (d # ds) =
     Call (C_deviceLoad (dev_name d))
     # (if dev_supported d then [Call (C_PreStartCheck (dev_name d))] else [])
     @ start_load_devices ds"

fun start_start_devices :: "start_device list \<Rightarrow> start_prog" where
  "start_start_devices [] = []"
| "start_start_devices (d # ds) =
     (if dev_supported d
      then [Call (C_deviceStart (dev_name d)), RevertAdd (R_deviceStop (dev_name d))]
           @ (if dev_revert d then [RevertAdd (R_runConf_Revert (dev_name d))] else [])
      else [])
     @ start_start_devices ds"

text \<open>the config drive mount;\<close>

definition start_config_drive :: start_prog where
  "start_config_drive =
     [Call C_configDriveMountPathClear,
      Call C_Mkdir_configMntPath,
      RevertAdd R_configDriveMountPathClear,
      Call C_DiskMount]"

text \<open>the QEMU configuration and command line;\<close>

definition start_configure :: start_prog where
  "start_configure =
     [Call C_qemuArchConfig,
      Call C_getStartupSnapNameAndExpiry,
      Call C_snapshot,
      Call C_cpuTopology,
      Call C_cluster_group_config,
      Call C_ArchitectureName,
      Call C_GetClusterCPUFlags,
      Call C_generateQemuConfig,
      Call C_remove_state,
      Call C_UpdateInstanceStatefulFlag,
      Call C_chown_nvram,
      Call C_chmod_nvram,
      Call C_chown_path,
      Call C_chown_config,
      Call C_HugepagesPath,
      Call C_shellquote_Split,
      Call C_QEMUSet,
      Call C_config_hook,
      Call C_writeQemuConfigFile,
      Call C_NewProcess,
      Call C_apparmor_InstanceLoad,
      Call C_UpdateBackupFile]"

text \<open>the launch: spawning QEMU and waiting for the launcher to exit;\<close>

definition start_launch :: start_prog where
  "start_launch = [Call C_StartWithFiles, Call C_Wait]"

text \<open>the process ID of the launched QEMU and the closure that kills it;\<close>

definition start_spawned :: start_prog where
  "start_spawned = [Call C_pid, RevertAdd R_killQemuProcess]"

text \<open>the work over the monitor, up to the record of the last state;\<close>

definition start_monitor :: start_prog where
  "start_monitor =
     [Call C_qmpConnect,
      Call C_MachineDefinition,
      Call C_VolatileSet_definition,
      Call C_early_hook,
      Call C_setCPUs,
      Call C_GetCPUs,
      Call C_vcpu_count,
      Call C_SchedSetaffinity,
      Call C_setCoreSched,
      Call C_monHooks,
      Call C_pre_start_hook,
      Call C_Reset,
      Call C_SetAction,
      Call C_restoreState,
      Call C_monitor_Start,
      Call C_UpdateInstanceStatefulFlag_started,
      Call C_recordLastState]"

text \<open>and \<^verbatim>\<open>reverter.Success()\<close> followed by the post-start hooks.\<close>

definition start_finish :: start_prog where
  "start_finish =
     [RevertSuccess,
      CallOnFail C_post_start_hook R_Stop,
      CallOnFail C_runHooks R_Stop]"

definition start_until_spawn :: "start_device list \<Rightarrow> start_prog" where
  "start_until_spawn devs =
     start_prepare @ start_load_devices devs @ start_start_devices devs
     @ start_config_drive @ start_configure"

definition start_prog :: "start_device list \<Rightarrow> start_prog" where
  "start_prog devs =
     start_begin @ start_until_spawn devs @ start_launch @ start_spawned
     @ start_monitor @ start_finish"

text \<open>start is entered with the lock held and nothing else acquired.\<close>

definition start_world0 :: start_world where
  "start_world0 =
     \<lparr>config_mounted = False, started_devices = [], config_drive_path = False,
      qemu_running = False, volatile_written = False, op_lock_held = True, cleanup = []\<rparr>"

definition start :: "start_env \<Rightarrow> start_device list \<Rightarrow> start_call option \<times> start_world" where
  "start e devs = run (start_call_sem e) (start_undo e) (start_prog devs) start_world0"

definition start_frame0 :: "(start_world, start_closure) frame" where
  "start_frame0 = \<lparr>world = start_world0, reverter = [], defers = []\<rparr>"

text \<open>
  What statusCode reports for a world once start has returned: the lock decides first,
  then whether a QEMU process answers on the monitor (launched with \<^verbatim>\<open>-S\<close> and
  not yet resumed, it reports \<^verbatim>\<open>prelaunch\<close>).
\<close>

definition status_after_start :: "(string \<Rightarrow> bool) \<Rightarrow> start_env \<Rightarrow> start_world \<Rightarrow> status_code" where
  "status_after_start isTrue e w =
     fst (statusCode isTrue
            \<lparr>op_action = (if op_lock_held w then Some ActionStart else None),
             last_state_ready = '''',
             qmp_connects = qemu_running w,
             monitor_status = Inr ''prelaunch'',
             env_pid = (if qemu_running w then pid_value e else 0)\<rparr>)"

subsection \<open>start: the machine definition\<close>

text \<open>
  The part of start that reads and writes \<^verbatim>\<open>volatile.vm.definition\<close>. A Go map
  gives the empty string for a missing key.
\<close>

definition config_get :: "(string \<rightharpoonup> string) \<Rightarrow> string \<Rightarrow> string" where
  "config_get config key = (case config key of None \<Rightarrow> '''' | Some v \<Rightarrow> v)"

text \<open>The definition that start passes to \<^verbatim>\<open>generateQemuConfig\<close>.\<close>

definition start_machineDefinition :: "bool \<Rightarrow> (string \<rightharpoonup> string) \<Rightarrow> string" where
  "start_machineDefinition stateful localConfig =
     (if stateful then config_get localConfig ''volatile.vm.definition'' else '''')"

text \<open>
  Between the two, start clears its \<^verbatim>\<open>stateful\<close> flag when the instance has no
  state to restore (\<^verbatim>\<open>d.stateful\<close> is false).
\<close>

definition start_stateful :: "bool \<Rightarrow> bool \<Rightarrow> bool" where
  "start_stateful stateful d_stateful = (if stateful then (if d_stateful then True else False) else False)"

text \<open>
  Modelled from the spec: \<^verbatim>\<open>VolatileSet\<close> is a method of the common instance type and
  is not part of the driver's file. The spec has \<^verbatim>\<open>volatile.apply_nvram\<close> cleared
  after a start, and start clears it by giving \<^verbatim>\<open>VolatileSet\<close> the empty string for
  it: a key given the empty string is removed from the local configuration, a key given
  any other value is stored with it. The changes are the entries of the Go map it is
  called with; that it fails when the database does is the call
  \<open>C_VolatileSet_definition\<close> of start.
\<close>

fun VolatileSet :: "(string \<times> string) list \<Rightarrow> (string \<rightharpoonup> string) \<Rightarrow> (string \<rightharpoonup> string)" where
  "VolatileSet [] localConfig = localConfig"
| "VolatileSet ((key, v) # changes) localConfig =
     VolatileSet changes (if v = '''' then localConfig(key := None) else localConfig(key \<mapsto> v))"

text \<open>
  Once QEMU runs, a start that is not restoring state stores what
  \<^verbatim>\<open>monitor.MachineDefinition()\<close> reports.
\<close>

definition start_record_definition ::
  "bool \<Rightarrow> string \<Rightarrow> (string \<rightharpoonup> string) \<Rightarrow> (string \<rightharpoonup> string)" where
  "start_record_definition stateful definition localConfig =
     (if \<not> stateful then VolatileSet [(''volatile.vm.definition'', definition)] localConfig
      else localConfig)"

text \<open>Both together: the definition passed on, and the local configuration afterwards.\<close>

definition start_definition ::
  "bool \<Rightarrow> bool \<Rightarrow> string \<Rightarrow> (string \<rightharpoonup> string) \<Rightarrow> string \<times> (string \<rightharpoonup> string)" where
  "start_definition stateful d_stateful definition localConfig =
     (start_machineDefinition stateful localConfig,
      start_record_definition (start_stateful stateful d_stateful) definition localConfig)"

subsection \<open>migrateSendLive\<close>





























subsection \<open>Vsock context IDs\<close>

type_synonym uint32 = "32 word"

text \<open>An open handle on \<^verbatim>\<open>/dev/vhost-vsock\<close>, bound to the context ID it was given.\<close>

datatype vsock_file = VhostVsockFile uint32

text \<open>
  The outcome of the \<^verbatim>\<open>VHOST_VSOCK_SET_GUEST_CID\<close> ioctl: success, \<^verbatim>\<open>EADDRINUSE\<close>
  (the context ID is taken), or any other errno.
\<close>

datatype ioctl_result = IoctlOk | EADDRINUSE | IoctlErrno

datatype vsock_err =
    Err_NotSet
  | Err_ParseUint
  | Err_ReservedID
  | Err_OpenVhost
  | Err_Ioctl
  | Err_ParseUUID
  | Err_RandomSeed
  | Err_Timeout

text \<open>
  Functions from outside the driver, as parameters:
  \<^verbatim>\<open>strconv.ParseUint(s, 10, 32)\<close>; \<^verbatim>\<open>uuid.Parse(s)\<close> followed by \<^verbatim>\<open>String()\<close>,
  giving the canonical text of the UUID; and \<^verbatim>\<open>GetStableRandomGenerator\<close>.
  Each is \<open>None\<close> where the Go function returns an error.

  Modelled from the spec: \<^verbatim>\<open>localUtil.GetStableRandomGenerator\<close> is not part of the
  driver's file. The spec calls it a deterministic PRNG seeded with the instance UUID, so
  it is a function from the seed to the generator, and the generator is the sequence of
  the values that successive calls of \<^verbatim>\<open>r.Uint32()\<close> return.
\<close>

record vsock_lib =
  parseUint32 :: "string \<Rightarrow> uint32 option"
  uuid_Parse :: "string \<Rightarrow> string option"
  GetStableRandomGenerator :: "string \<Rightarrow> (nat \<Rightarrow> uint32) option"

text \<open>
  The instance and the host as nextVsockID sees them: \<^verbatim>\<open>volatile.vsock_id\<close> (absent
  or present), \<^verbatim>\<open>volatile.uuid\<close>, whether \<^verbatim>\<open>/dev/vhost-vsock\<close> can be opened, what the
  ioctl answers for each context ID, and the number of times
  \<^verbatim>\<open>time.Now().After(timeout)\<close> answers false before the five seconds are over.
\<close>

record vsock_env =
  volatile_vsock_id :: "string option"
  vsock_uuid :: string
  open_vhost_ok :: bool
  set_guest_cid :: "uint32 \<Rightarrow> ioctl_result"
  ticks :: nat

definition reservedVsockID :: "uint32 \<Rightarrow> bool" where
  "reservedVsockID vsockID = (vsockID \<le> 2)"

definition getVsockID :: "vsock_lib \<Rightarrow> vsock_env \<Rightarrow> vsock_err + uint32" where
  "getVsockID lib e =
     (case volatile_vsock_id e of
        None \<Rightarrow> Inl Err_NotSet
      | Some existingVsockID \<Rightarrow>
          (case parseUint32 lib existingVsockID of
             None \<Rightarrow> Inl Err_ParseUint
           | Some vsockID \<Rightarrow>
               if reservedVsockID vsockID then Inl Err_ReservedID else Inr vsockID))"

text \<open>
  acquireVsockID returns the file handle, \<open>None\<close> (Go's \<^verbatim>\<open>nil, nil\<close>) when the
  context ID is in use, or an error.
\<close>

definition acquireVsockID ::
  "bool \<Rightarrow> (uint32 \<Rightarrow> ioctl_result) \<Rightarrow> uint32 \<Rightarrow> vsock_err + vsock_file option" where
  "acquireVsockID open_ok ioctl vsockID =
     (if \<not> open_ok then Inl Err_OpenVhost
      else case ioctl vsockID of
             IoctlOk \<Rightarrow> Inr (Some (VhostVsockFile vsockID))
           | EADDRINUSE \<Rightarrow> Inr None
           | IoctlErrno \<Rightarrow> Inl Err_Ioctl)"

text \<open>The Go triple: context ID, file handle (\<open>None\<close> for nil), error (\<open>None\<close> for nil).\<close>

definition acquireExistingVsockID ::
  "vsock_lib \<Rightarrow> vsock_env \<Rightarrow> uint32 \<times> vsock_file option \<times> vsock_err option" where
  "acquireExistingVsockID lib e =
     (case getVsockID lib e of
        Inl err \<Rightarrow> (0, None, Some err)
      | Inr vsockID \<Rightarrow>
          (case acquireVsockID (open_vhost_ok e) (set_guest_cid e) vsockID of
             Inl err \<Rightarrow> (0, None, Some err)
           | Inr f \<Rightarrow> (vsockID, f, None)))"

text \<open>
  The loop of nextVsockID. Its third argument counts the iterations left before the
  timeout, the fourth the values drawn from the generator so far.
\<close>

fun nextVsockID_loop ::
  "bool \<Rightarrow> (uint32 \<Rightarrow> ioctl_result) \<Rightarrow> (nat \<Rightarrow> uint32) \<Rightarrow> nat \<Rightarrow> nat
     \<Rightarrow> vsock_err + uint32 \<times> vsock_file" where
  "nextVsockID_loop open_ok ioctl r 0 i = Inl Err_Timeout"
| "nextVsockID_loop open_ok ioctl r (Suc n) i =
     (let candidateVsockID = r i in
      if reservedVsockID candidateVsockID then nextVsockID_loop open_ok ioctl r n (Suc i)
      else case acquireVsockID open_ok ioctl candidateVsockID of
             Inl err \<Rightarrow> Inl err
           | Inr None \<Rightarrow> nextVsockID_loop open_ok ioctl r n (Suc i)
           | Inr (Some vsockF) \<Rightarrow> Inr (candidateVsockID, vsockF))"

text \<open>The part of nextVsockID after the stored ID could not be taken again.\<close>

definition nextVsockID_new :: "vsock_lib \<Rightarrow> vsock_env \<Rightarrow> vsock_err + uint32 \<times> vsock_file" where
  "nextVsockID_new lib e =
     (case uuid_Parse lib (vsock_uuid e) of
        None \<Rightarrow> Inl Err_ParseUUID
      | Some instanceUUID \<Rightarrow>
          (case GetStableRandomGenerator lib instanceUUID of
             None \<Rightarrow> Inl Err_RandomSeed
           | Some r \<Rightarrow> nextVsockID_loop (open_vhost_ok e) (set_guest_cid e) r (ticks e) 0))"

text \<open>The test \<^verbatim>\<open>vsockID != 0 && vsockF != nil\<close> on the result of acquireExistingVsockID.\<close>

definition reacquired :: "vsock_lib \<Rightarrow> vsock_env \<Rightarrow> bool" where
  "reacquired lib e =
     (case acquireExistingVsockID lib e of
        (vsockID, vsockF, err) \<Rightarrow> vsockID \<noteq> 0 \<and> vsockF \<noteq> None)"

definition nextVsockID :: "vsock_lib \<Rightarrow> vsock_env \<Rightarrow> vsock_err + uint32 \<times> vsock_file" where
  "nextVsockID lib e =
     (case acquireExistingVsockID lib e of
        (vsockID, vsockF, err) \<Rightarrow>
          (case vsockF of
             Some f \<Rightarrow> if vsockID \<noteq> 0 then Inr (vsockID, f) else nextVsockID_new lib e
           | None \<Rightarrow> nextVsockID_new lib e))"

subsection \<open>pid\<close>

text \<open>
  The inputs of pid: the result of reading \<^verbatim>\<open>qemu.pid\<close> (its content, or the error),
  the standard library's \<^verbatim>\<open>strconv.Atoi(strings.TrimSpace(s))\<close> as a parameter
  (\<open>None\<close> when it returns an error), the content of \<^verbatim>\<open>/proc/<pid>/cmdline\<close> for
  each process ID (\<open>None\<close> when reading it fails for any reason), and
  \<^verbatim>\<open>localConfig["volatile.uuid"]\<close>.
\<close>

datatype read_err = ErrNotExist | ErrOtherRead

datatype pid_err = Err_ReadFile read_err | Err_Atoi | Err_PidMismatch

record pid_env =
  pid_file :: "read_err + string"
  atoi_trim :: "string \<Rightarrow> int option"
  proc_cmdline :: "int \<Rightarrow> string option"
  volatile_uuid :: string

text \<open>\<^verbatim>\<open>bytes.Contains(b, sub)\<close>: \<open>sub\<close> occurs in \<open>b\<close> as a contiguous block.\<close>

fun bytes_Contains :: "string \<Rightarrow> string \<Rightarrow> bool" where
  "bytes_Contains [] sub = (sub = [])"
| "bytes_Contains (c # cs) sub = (take (length sub) (c # cs) = sub \<or> bytes_Contains cs sub)"

text \<open>
  The result is the pair that the Go function returns: the process ID (0 or \<open>-1\<close>
  when there is none) and the error, \<open>None\<close> for nil.
\<close>

definition pid :: "pid_env \<Rightarrow> int \<times> pid_err option" where
  "pid e =
     (case pid_file e of
        Inl ErrNotExist \<Rightarrow> (0, None)
      | Inl ErrOtherRead \<Rightarrow> (- 1, Some (Err_ReadFile ErrOtherRead))
      | Inr pidStr \<Rightarrow>
          (case atoi_trim e pidStr of
             None \<Rightarrow> (- 1, Some Err_Atoi)
           | Some p \<Rightarrow>
               (case proc_cmdline e p of
                  None \<Rightarrow> (0, None)
                | Some cmdLine \<Rightarrow>
                    if \<not> bytes_Contains cmdLine ''qemu-system''
                       \<or> \<not> bytes_Contains cmdLine (volatile_uuid e)
                    then (- 1, Some Err_PidMismatch)
                    else (p, None))))"

subsection \<open>deviceDetachBlockDevice\<close>

text \<open>
  What the monitor answers to one command: success, an error with HTTP status 423 Locked
  (\<^verbatim>\<open>api.StatusErrorCheck(err, http.StatusLocked)\<close> holds), or any other error.
\<close>

datatype qmp_result = QmpOk | QmpLocked | QmpError

text \<open>What the function does outside itself, in order; a sleep carries its milliseconds.\<close>

datatype detach_event =
    Ev_qmpConnect
  | Ev_RemoveFDFromFDSet
  | Ev_RemoveDevice
  | Ev_RemoveBlockDevice
  | Ev_Sleep nat

datatype detach_err = Err_Connect | Err_RemoveFD | Err_RemoveDevice | Err_DetachTimeout

text \<open>
  The monitor as deviceDetachBlockDevice meets it: whether it can be reached, its answers
  to \<^verbatim>\<open>RemoveFDFromFDSet\<close> and \<^verbatim>\<open>RemoveDevice\<close>, its answer to the i-th call of
  \<^verbatim>\<open>RemoveBlockDevice\<close>, and the milliseconds that call takes.
\<close>

record detach_env =
  mon_connects :: bool
  remove_fd :: qmp_result
  remove_device :: qmp_result
  remove_blockdev :: "nat \<Rightarrow> qmp_result"
  call_ms :: "nat \<Rightarrow> nat"

text \<open>
  The retry loop. Its arguments are the deadline \<^verbatim>\<open>waitUntil\<close>, the number of
  calls made so far, the clock in milliseconds and the events so far. It returns the
  error (\<open>None\<close> for nil), the clock and the events; a loop that never leaves has no
  result, which is the value \<open>None\<close> of the whole.
\<close>

partial_function (option) detach_loop ::
  "detach_env \<Rightarrow> nat \<Rightarrow> nat \<Rightarrow> nat \<Rightarrow> detach_event list
     \<Rightarrow> (detach_err option \<times> nat \<times> detach_event list) option" where
  "detach_loop e waitUntil i now log =
     (let now' = now + call_ms e i; log' = log @ [Ev_RemoveBlockDevice] in
      case remove_blockdev e i of
        QmpOk \<Rightarrow> Some (None, now', log')
      | QmpLocked \<Rightarrow> detach_loop e waitUntil (Suc i) (now' + 2000) (log' @ [Ev_Sleep 2000])
      | QmpError \<Rightarrow>
          if now' > waitUntil then Some (Some Err_DetachTimeout, now', log')
          else detach_loop e waitUntil (Suc i) now' log')"

definition deviceDetachBlockDevice ::
  "detach_env \<Rightarrow> nat \<Rightarrow> (detach_err option \<times> nat \<times> detach_event list) option" where
  "deviceDetachBlockDevice e now =
     (if \<not> mon_connects e then Some (Some Err_Connect, now, [Ev_qmpConnect])
      else if remove_fd e \<noteq> QmpOk
        then Some (Some Err_RemoveFD, now, [Ev_qmpConnect, Ev_RemoveFDFromFDSet])
      else if remove_device e \<noteq> QmpOk
        then Some (Some Err_RemoveDevice, now, [Ev_qmpConnect, Ev_RemoveFDFromFDSet, Ev_RemoveDevice])
      else detach_loop e (now + 10000) 0 now [Ev_qmpConnect, Ev_RemoveFDFromFDSet, Ev_RemoveDevice])"

subsection \<open>setCPUs\<close>

text \<open>One entry of the answer to \<^verbatim>\<open>query-hotpluggable-cpus\<close>, with its properties.\<close>

record HotpluggableCPU =
  cpu_Type :: string
  QOMPath :: string
  SocketID :: int
  CoreID :: int
  ThreadID :: int

datatype qval = QStr string | QInt int

type_synonym qemu_dev = "(string \<times> qval) list"

text \<open>What setCPUs does outside itself, in order; a sleep carries its milliseconds.\<close>

datatype cpu_event =
    Cpu_qmpConnect
  | Cpu_QueryHotpluggableCPUs
  | Cpu_AddDevice qemu_dev
  | Cpu_RemoveDevice string
  | Cpu_Sleep nat
  | Cpu_postCPUHotplug

datatype cpu_err =
    CErr_Connect
  | CErr_Query
  | CErr_MoreThanAvailable
  | CErr_NotEnoughToAdd
  | CErr_AddDevice
  | CErr_NotEnoughToRemove
  | CErr_RemoveCPU
  | CErr_PostHotplug

text \<open>
  The inputs of setCPUs besides the count: whether the caller passed a monitor, whether
  \<^verbatim>\<open>qmpConnect\<close> succeeds when it did not, the answer to
  \<^verbatim>\<open>QueryHotpluggableCPUs\<close> (\<open>None\<close> for an error), whether \<^verbatim>\<open>AddDevice\<close>
  and \<^verbatim>\<open>RemoveDevice\<close> succeed for a device ID, whether \<^verbatim>\<open>postCPUHotplug\<close>
  succeeds, and whether the architecture is s390x.
\<close>

record cpu_env =
  monitor_given :: bool
  cpu_qmp_connects :: bool
  hotpluggable_cpus :: "HotpluggableCPU list option"
  add_device_ok :: "string \<Rightarrow> bool"
  remove_device_ok :: "string \<Rightarrow> bool"
  post_hotplug_ok :: bool
  arch_s390x :: bool

text \<open>\<^verbatim>\<open>%d\<close> of \<^verbatim>\<open>fmt.Sprintf\<close>: an integer in decimal.\<close>

fun nat_digits :: "nat \<Rightarrow> string" where
  "nat_digits n =
     (if n < 10 then [char_of (48 + n)]
      else nat_digits (n div 10) @ [char_of (48 + n mod 10)])"

declare nat_digits.simps [simp del]

definition fmt_d :: "int \<Rightarrow> string" where
  "fmt_d i = (if i < 0 then CHR ''-'' # nat_digits (nat (- i)) else nat_digits (nat i))"

text \<open>\<^verbatim>\<open>strings.HasPrefix\<close>, and the last field of \<^verbatim>\<open>strings.Split(s, "/")\<close>.\<close>

definition HasPrefix :: "string \<Rightarrow> string \<Rightarrow> bool" where
  "HasPrefix s prefix = (take (length prefix) s = prefix)"

definition last_field :: "string \<Rightarrow> string" where
  "last_field s = rev (takeWhile (\<lambda>c. c \<noteq> CHR ''/'') (rev s))"

text \<open>The device ID and the device that the increase branch adds for a CPU.\<close>

definition cpu_devID :: "HotpluggableCPU \<Rightarrow> string" where
  "cpu_devID cpu = ''cpu'' @ fmt_d (SocketID cpu) @ fmt_d (CoreID cpu) @ fmt_d (ThreadID cpu)"

definition cpu_qemuDev :: "bool \<Rightarrow> HotpluggableCPU \<Rightarrow> qemu_dev" where
  "cpu_qemuDev is_s390x cpu =
     [(''id'', QStr (cpu_devID cpu)), (''driver'', QStr (cpu_Type cpu)),
      (''core-id'', QInt (CoreID cpu))]
     @ (if is_s390x then []
        else [(''socket-id'', QInt (SocketID cpu)), (''thread-id'', QInt (ThreadID cpu))])"

text \<open>
  The device ID that the decrease branch removes, and the device that its revert closure
  adds back.
\<close>

definition qom_devID :: "HotpluggableCPU \<Rightarrow> string" where
  "qom_devID cpu = last_field (QOMPath cpu)"

definition cpu_readd_dev :: "HotpluggableCPU \<Rightarrow> qemu_dev" where
  "cpu_readd_dev cpu =
     [(''id'', QStr (qom_devID cpu)), (''driver'', QStr (cpu_Type cpu)),
      (''socket-id'', QInt (SocketID cpu)), (''core-id'', QInt (CoreID cpu)),
      (''thread-id'', QInt (ThreadID cpu))]"

text \<open>
  The two loops. The third argument is the reverter: the commands its closures issue,
  the latest first; they are issued when a command of the loop fails.
\<close>

fun add_cpus ::
  "cpu_env \<Rightarrow> HotpluggableCPU list \<Rightarrow> cpu_event list \<Rightarrow> cpu_event list
     \<Rightarrow> cpu_err option \<times> cpu_event list" where
  "add_cpus e [] closures log = (None, log)"
| "add_cpus e (cpu # cpus) closures log =
     (if add_device_ok e (cpu_devID cpu)
      then add_cpus e cpus (Cpu_RemoveDevice (cpu_devID cpu) # closures)
             (log @ [Cpu_AddDevice (cpu_qemuDev (arch_s390x e) cpu)])
      else (Some CErr_AddDevice,
            log @ [Cpu_AddDevice (cpu_qemuDev (arch_s390x e) cpu)] @ closures))"

fun remove_cpus ::
  "cpu_env \<Rightarrow> HotpluggableCPU list \<Rightarrow> cpu_event list \<Rightarrow> cpu_event list
     \<Rightarrow> cpu_err option \<times> cpu_event list" where
  "remove_cpus e [] closures log = (None, log)"
| "remove_cpus e (cpu # cpus) closures log =
     (if remove_device_ok e (qom_devID cpu)
      then remove_cpus e cpus (Cpu_AddDevice (cpu_readd_dev cpu) # closures)
             (log @ [Cpu_RemoveDevice (qom_devID cpu)])
      else (Some CErr_RemoveCPU, log @ [Cpu_RemoveDevice (qom_devID cpu)] @ closures))"

definition availableCPUs :: "HotpluggableCPU list \<Rightarrow> HotpluggableCPU list" where
  "availableCPUs cpus = filter (\<lambda>cpu. QOMPath cpu = '''') cpus"

definition hotpluggedCPUs :: "HotpluggableCPU list \<Rightarrow> HotpluggableCPU list" where
  "hotpluggedCPUs cpus =
     filter (\<lambda>cpu. QOMPath cpu \<noteq> '''' \<and> HasPrefix (QOMPath cpu) ''/machine/peripheral'') cpus"

definition totalReservedCPUs :: "HotpluggableCPU list \<Rightarrow> int" where
  "totalReservedCPUs cpus = int (length (hotpluggedCPUs cpus)) + 1"

definition post_hotplug :: "cpu_env \<Rightarrow> cpu_event list \<Rightarrow> cpu_err option \<times> cpu_event list" where
  "post_hotplug e log =
     (if post_hotplug_ok e then None else Some CErr_PostHotplug, log @ [Cpu_postCPUHotplug])"

definition setCPUs :: "cpu_env \<Rightarrow> int \<Rightarrow> cpu_err option \<times> cpu_event list" where
  "setCPUs e count =
     (if count = 0 then (None, [])
      else
        let log0 = (if monitor_given e then [] else [Cpu_qmpConnect]) in
        if \<not> monitor_given e \<and> \<not> cpu_qmp_connects e then (Some CErr_Connect, log0)
        else
          case hotpluggable_cpus e of
            None \<Rightarrow> (Some CErr_Query, log0 @ [Cpu_QueryHotpluggableCPUs])
          | Some cpus \<Rightarrow>
              let log1 = log0 @ [Cpu_QueryHotpluggableCPUs] in
              if count = totalReservedCPUs cpus then (None, log1)
              else if count > totalReservedCPUs cpus then
                if count > int (length cpus) then (Some CErr_MoreThanAvailable, log1)
                else if count - totalReservedCPUs cpus > int (length (availableCPUs cpus))
                  then (Some CErr_NotEnoughToAdd, log1)
                else
                  (case add_cpus e (take (nat (count - totalReservedCPUs cpus)) (availableCPUs cpus))
                          [] log1 of
                     (Some err, log) \<Rightarrow> (Some err, log)
                   | (None, log) \<Rightarrow> post_hotplug e log)
              else
                if totalReservedCPUs cpus - count > int (length (hotpluggedCPUs cpus))
                  then (Some CErr_NotEnoughToRemove, log1)
                else
                  (case remove_cpus e (take (nat (totalReservedCPUs cpus - count)) (hotpluggedCPUs cpus))
                          [] log1 of
                     (Some err, log) \<Rightarrow> (Some err, log)
                   | (None, log) \<Rightarrow> post_hotplug e (log @ [Cpu_Sleep 1000])))"

text \<open>The events before the count is compared with the reserved CPUs.\<close>

definition cpu_log1 :: "cpu_env \<Rightarrow> cpu_event list" where
  "cpu_log1 e = (if monitor_given e then [] else [Cpu_qmpConnect]) @ [Cpu_QueryHotpluggableCPUs]"

text \<open>The \<^verbatim>\<open>device_add\<close> and \<^verbatim>\<open>device_del\<close> commands among the events.\<close>

fun device_adds :: "cpu_event list \<Rightarrow> qemu_dev list" where
  "device_adds [] = []"
| "device_adds (Cpu_AddDevice dev # evs) = dev # device_adds evs"
| "device_adds (ev # evs) = device_adds evs"

fun device_dels :: "cpu_event list \<Rightarrow> string list" where
  "device_dels [] = []"
| "device_dels (Cpu_RemoveDevice devID # evs) = devID # device_dels evs"
| "device_dels (ev # evs) = device_dels evs"

subsection \<open>Update: the check of initial device configuration\<close>

text \<open>
  A device is a Go \<^verbatim>\<open>map[string]string\<close> and the devices of an instance a map from
  device names to devices. Both are association lists with distinct keys here; the order
  of a list stands for the order in which \<^verbatim>\<open>range\<close> happens to visit the map.
\<close>

type_synonym device = "(string \<times> string) list"
type_synonym devices = "(string \<times> device) list"

datatype update_err = Err_NewDeviceInitial | Err_InitialAdded | Err_InitialModified

text \<open>The inner loop, over the keys of one added device.\<close>

fun check_initial_keys :: "device option \<Rightarrow> device \<Rightarrow> update_err option" where
  "check_initial_keys oldDev [] = None"
| "check_initial_keys oldDev ((k, newVal) # rest) =
     (if \<not> HasPrefix k ''initial.'' then check_initial_keys oldDev rest
      else
        case oldDev of
          None \<Rightarrow> Some Err_NewDeviceInitial
        | Some old \<Rightarrow>
            (case map_of old k of
               None \<Rightarrow> Some Err_InitialAdded
             | Some oldVal \<Rightarrow>
                 if newVal \<noteq> '''' \<and> newVal \<noteq> oldVal then Some Err_InitialModified
                 else check_initial_keys oldDev rest))"

text \<open>The outer loop, over the added devices.\<close>

fun check_initial_devices :: "devices \<Rightarrow> devices \<Rightarrow> update_err option" where
  "check_initial_devices removeDevices [] = None"
| "check_initial_devices removeDevices ((devName, newDev) # rest) =
     (case check_initial_keys (map_of removeDevices devName) newDev of
        Some err \<Rightarrow> Some err
      | None \<Rightarrow> check_initial_devices removeDevices rest)"

text \<open>
  The check itself. \<^verbatim>\<open>util.StringPrefixInSlice\<close> is outside the driver and is a
  parameter.
\<close>

definition Update_initial_check ::
  "(string \<Rightarrow> string list \<Rightarrow> bool) \<Rightarrow> devices \<Rightarrow> devices \<Rightarrow> string list \<Rightarrow> update_err option" where
  "Update_initial_check StringPrefixInSlice removeDevices addDevices allUpdatedKeys =
     (if StringPrefixInSlice ''initial.'' allUpdatedKeys
      then check_initial_devices removeDevices addDevices
      else None)"

text \<open>
  Update from the point where it saves the old configuration to the check: it registers
  the revert closure that restores the old values, installs the new local devices,
  expands them, computes the device diff, and runs the check. \<^verbatim>\<open>expandConfig\<close> and
  \<^verbatim>\<open>Devices.Update\<close> (which yields the removed, added and updated devices and all
  updated keys) are outside the driver and are parameters. The result is the error with
  the instance as the reverter leaves it, or the instance with which Update goes on.
\<close>

record instance_devices =
  localDevices :: devices
  expandedDevices :: devices

type_synonym devices_diff = "devices \<times> devices \<times> devices \<times> string list"

definition Update_until_initial_check ::
  "(devices \<Rightarrow> devices) \<Rightarrow> (devices \<Rightarrow> devices \<Rightarrow> devices_diff)
     \<Rightarrow> (string \<Rightarrow> string list \<Rightarrow> bool)
     \<Rightarrow> instance_devices \<Rightarrow> devices \<Rightarrow> update_err \<times> instance_devices + instance_devices" where
  "Update_until_initial_check expandDevices devices_Update StringPrefixInSlice d args_Devices =
     (let oldExpandedDevices = expandedDevices d;
          oldLocalDevices = localDevices d;
          d1 = d\<lparr>localDevices := args_Devices\<rparr>;
          d2 = d1\<lparr>expandedDevices := expandDevices (localDevices d1)\<rparr>
      in case devices_Update oldExpandedDevices (expandedDevices d2) of
           (removeDevices, addDevices, updateDevices, allUpdatedKeys) \<Rightarrow>
             (case Update_initial_check StringPrefixInSlice removeDevices addDevices allUpdatedKeys of
                Some err \<Rightarrow>
                  Inl (err, d2\<lparr>expandedDevices := oldExpandedDevices,
                               localDevices := oldLocalDevices\<rparr>)
              | None \<Rightarrow> Inr d2))"

text \<open>
  What the check objects to in a key of an added device: the device is not among the
  removed ones, or the old device lacks the key, or the new value is neither empty nor
  the old value.
\<close>

definition initial_violation :: "device option \<Rightarrow> string \<Rightarrow> string \<Rightarrow> bool" where
  "initial_violation oldDev k newVal =
     (case oldDev of
        None \<Rightarrow> True
      | Some old \<Rightarrow>
          (case map_of old k of
             None \<Rightarrow> True
           | Some oldVal \<Rightarrow> newVal \<noteq> [] \<and> newVal \<noteq> oldVal))"

section \<open>Concrete instances\<close>

text \<open>Small concrete inputs on which the properties below are exercised.\<close>

definition pid_env_example :: "read_err + string \<Rightarrow> string option \<Rightarrow> pid_env" where
  "pid_env_example file cmdLine =
     \<lparr>pid_file = file,
      atoi_trim = (\<lambda>s. if s = ''4242'' then Some 4242 else None),
      proc_cmdline = (\<lambda>p. if p = 4242 then cmdLine else None),
      volatile_uuid = ''ab-12''\<rparr>"

definition vsock_lib_example :: vsock_lib where
  "vsock_lib_example =
     \<lparr>parseUint32 = (\<lambda>s. if s = ''7'' then Some 7 else None),
      uuid_Parse = Some,
      GetStableRandomGenerator =
        (\<lambda>seed. Some (\<lambda>i. if i < 4 then [1, 3, 6, 9] ! i else 100))\<rparr>"

definition vsock_env_example :: "string option \<Rightarrow> nat \<Rightarrow> vsock_env" where
  "vsock_env_example stored n =
     \<lparr>volatile_vsock_id = stored, vsock_uuid = ''u'', open_vhost_ok = True,
      set_guest_cid = (\<lambda>c. if c = 3 \<or> c = 7 then EADDRINUSE else IoctlOk), ticks = n\<rparr>"

text \<open>A monitor that answers every \<^verbatim>\<open>blockdev-del\<close> with 423 Locked.\<close>

definition locked_env :: detach_env where
  "locked_env = \<lparr>mon_connects = True, remove_fd = QmpOk, remove_device = QmpOk,
     remove_blockdev = (\<lambda>i. QmpLocked), call_ms = (\<lambda>i. 1)\<rparr>"

text \<open>
  A machine with one fixed CPU, two hotplugged ones and one free slot, in the order
  in which the monitor lists them.
\<close>

definition cpu_example :: "string \<Rightarrow> int \<Rightarrow> HotpluggableCPU" where
  "cpu_example path core =
     \<lparr>cpu_Type = ''host-x86_64-cpu'', QOMPath = path, SocketID = 0, CoreID = core, ThreadID = 0\<rparr>"

definition cpu_env_example :: cpu_env where
  "cpu_env_example =
     \<lparr>monitor_given = True, cpu_qmp_connects = True,
      hotpluggable_cpus = Some
        [cpu_example ''/machine/unattached/device[0]'' 0,
         cpu_example ''/machine/peripheral/cpu010'' 1,
         cpu_example ''/machine/peripheral/cpu020'' 2,
         cpu_example '''' 3],
      add_device_ok = (\<lambda>devID. True), remove_device_ok = (\<lambda>devID. True),
      post_hotplug_ok = True, arch_s390x = False\<rparr>"


text \<open>
  An instance with one disk device whose \<^verbatim>\<open>initial.uid\<close> is 1000, and a device diff
  for a request that changes just that key: the device is removed and added again.
\<close>

definition devices_example :: "string \<Rightarrow> devices" where
  "devices_example uid =
     [(''data'', [(''type'', ''disk''), (''source'', ''tmpfs:''), (''path'', ''/mnt''),
                  (''initial.uid'', uid)])]"

definition devices_Update_example :: "devices \<Rightarrow> devices \<Rightarrow> devices_diff" where
  "devices_Update_example old new = (old, new, [], [''initial.uid''])"

definition StringPrefixInSlice_example :: "string \<Rightarrow> string list \<Rightarrow> bool" where
  "StringPrefixInSlice_example key list = list_ex (\<lambda>entry. HasPrefix entry key) list"

definition instance_example :: instance_devices where
  "instance_example =
     \<lparr>localDevices = devices_example ''1000'', expandedDevices = devices_example ''1000''\<rparr>"

text \<open>
  For start: an environment in which the calls given succeed and \<^verbatim>\<open>d.pid()\<close> fails
  or not (with an error that leaves the process there), and two devices.
\<close>

definition start_env_example :: "(start_call \<Rightarrow> bool) \<Rightarrow> bool \<Rightarrow> start_env" where
  "start_env_example ok pid_fails =
     \<lparr>call_ok = ok, Wait_leaves_qemu = False,
      pid_value = (if pid_fails then - 1 else 4242), pid_error = pid_fails,
      pid_leaves_qemu = True,
      unmount_ok = True, kill_ok = True, deviceStop_ok = (\<lambda>name. True), Stop_ok = True\<rparr>"

definition start_devices_example :: "start_device list" where
  "start_devices_example =
     [\<lparr>dev_name = ''eth0'', dev_supported = True, dev_revert = True\<rparr>,
      \<lparr>dev_name = ''root'', dev_supported = True, dev_revert = False\<rparr>]"

text \<open>A local configuration that records an older machine definition.\<close>

definition config_example :: "string \<rightharpoonup> string" where
  "config_example = [''volatile.vm.definition'' \<mapsto> ''pc-q35-8.2'', ''volatile.uuid'' \<mapsto> ''ab-12'']"


section \<open>Properties\<close>

subsection \<open>Straight-line functions: general facts\<close>

lemma steps_append:
  "steps call undo (xs @ ys) f =
     (case steps call undo xs f of Inl x \<Rightarrow> Inl x | Inr f' \<Rightarrow> steps call undo ys f')"
  by (induction xs arbitrary: f) (auto split: sum.splits)

lemma steps_append_fails:
  assumes "steps call undo (xs @ ys) f = Inl (c, f')"
  obtains (first) "steps call undo xs f = Inl (c, f')"
    | (second) g where "steps call undo xs f = Inr g" and "steps call undo ys g = Inl (c, f')"
  using assms by (auto simp: steps_append split: sum.splits)

lemma step_fails_call:
  "step call undo i f = Inl (c, f') \<Longrightarrow> c \<in> set (calls_of (i # prog))"
  by (cases i) (auto split: if_splits)

lemma calls_of_Cons_subset: "set (calls_of prog) \<subseteq> set (calls_of (i # prog))"
  by (cases i) auto

lemma steps_fails_in:
  "steps call undo xs f = Inl (c, f') \<Longrightarrow> c \<in> set (calls_of xs)"
proof (induction xs arbitrary: f)
  case Nil
  then show ?case by simp
next
  case (Cons i xs)
  show ?case
  proof (cases "step call undo i f")
    case (Inl failure)
    with Cons.prems have "step call undo i f = Inl (c, f')" by simp
    then show ?thesis by (rule step_fails_call)
  next
    case (Inr g)
    with Cons.prems have "steps call undo xs g = Inl (c, f')" by simp
    then have "c \<in> set (calls_of xs)" by (rule Cons.IH)
    with calls_of_Cons_subset [of xs i] show ?thesis by (rule subsetD)
  qed
qed

lemma calls_of_append: "calls_of (xs @ ys) = calls_of xs @ calls_of ys"
  by (induction xs rule: calls_of.induct) auto

lemma step_keeps_reverter:
  "i \<noteq> RevertSuccess \<Longrightarrow>
   set (reverter f) \<subseteq> set (reverter (frame_of (step call undo i f)))"
  by (cases i) (auto simp: frame_of_def)

lemma step_keeps_defers:
  "set (defers f) \<subseteq> set (defers (frame_of (step call undo i f)))"
  by (cases i) (auto simp: frame_of_def)

lemma steps_keeps_reverter:
  "RevertSuccess \<notin> set xs \<Longrightarrow>
   set (reverter f) \<subseteq> set (reverter (frame_of (steps call undo xs f)))"
proof (induction xs arbitrary: f)
  case Nil
  then show ?case by (simp add: frame_of_def)
next
  case (Cons i xs)
  then have i: "i \<noteq> RevertSuccess" and xs: "RevertSuccess \<notin> set xs" by auto
  show ?case
  proof (cases "step call undo i f")
    case (Inl failure)
    with step_keeps_reverter [OF i, of f call undo] show ?thesis by simp
  next
    case (Inr g)
    with step_keeps_reverter [OF i, of f call undo] have "set (reverter f) \<subseteq> set (reverter g)"
      by (simp add: frame_of_def)
    with Cons.IH [OF xs, of g] Inr show ?thesis by auto
  qed
qed

lemma steps_keeps_defers:
  "set (defers f) \<subseteq> set (defers (frame_of (steps call undo xs f)))"
proof (induction xs arbitrary: f)
  case Nil
  then show ?case by (simp add: frame_of_def)
next
  case (Cons i xs)
  show ?case
  proof (cases "step call undo i f")
    case (Inl failure)
    with step_keeps_defers [of f call undo i] show ?thesis by simp
  next
    case (Inr g)
    with step_keeps_defers [of f call undo i] have "set (defers f) \<subseteq> set (defers g)"
      by (simp add: frame_of_def)
    with Cons.IH [of g] Inr show ?thesis by auto
  qed
qed

lemma steps_reverter_added:
  "RevertSuccess \<notin> set xs \<Longrightarrow> RevertAdd r \<in> set xs \<Longrightarrow> steps call undo xs f = Inr f'
   \<Longrightarrow> r \<in> set (reverter f')"
proof (induction xs arbitrary: f)
  case Nil
  then show ?case by simp
next
  case (Cons i xs)
  then have xs: "RevertSuccess \<notin> set xs" by auto
  from Cons.prems obtain g where g: "step call undo i f = Inr g" and rest: "steps call undo xs g = Inr f'"
    by (auto split: sum.splits)
  show ?case
  proof (cases "i = RevertAdd r")
    case True
    with g have "r \<in> set (reverter g)" by auto
    with steps_keeps_reverter [OF xs, of g call undo] rest show ?thesis
      by (auto simp: frame_of_def)
  next
    case False
    with Cons.prems have "RevertAdd r \<in> set xs" by auto
    from Cons.IH [OF xs this rest] show ?thesis .
  qed
qed

lemma steps_defer_added:
  "d \<in> set xs \<Longrightarrow> d = DeferRevertFail \<and> d' = Deferred_RevertFail \<or> d = Defer r \<and> d' = Deferred r
   \<Longrightarrow> steps call undo xs f = Inr f'
   \<Longrightarrow> d' \<in> set (defers f')"
proof (induction xs arbitrary: f)
  case Nil
  then show ?case by simp
next
  case (Cons i xs)
  from Cons.prems obtain g where g: "step call undo i f = Inr g" and rest: "steps call undo xs g = Inr f'"
    by (auto split: sum.splits)
  show ?case
  proof (cases "i = d")
    case True
    with g Cons.prems(2) have "d' \<in> set (defers g)" by auto
    with steps_keeps_defers [of g call undo xs] rest show ?thesis
      by (auto simp: frame_of_def)
  next
    case False
    with Cons.prems have "d \<in> set xs" by auto
    from Cons.IH [OF this Cons.prems(2) rest] show ?thesis .
  qed
qed

lemma step_world_stable:
  assumes calls: "\<And>c w. c \<in> set (calls_of [i]) \<Longrightarrow> Q w \<Longrightarrow> Q (snd (call c w))"
    and closures: "\<And>r w. Q w \<Longrightarrow> Q (undo r w)"
    and start: "Q (world f)"
  shows "Q (world (frame_of (step call undo i f)))"
proof (cases i)
  case (Call c)
  with calls [of c "world f"] start show ?thesis by (simp add: frame_of_def)
next
  case (CallOnFail c r)
  with calls [of c "world f"] start have "Q (snd (call c (world f)))" by simp
  with closures CallOnFail show ?thesis by (simp add: frame_of_def)
next
  case (Do r)
  with closures start show ?thesis by (simp add: frame_of_def)
qed (use start in \<open>simp_all add: frame_of_def\<close>)

lemma steps_world_stable:
  assumes calls: "\<And>c w. c \<in> set (calls_of xs) \<Longrightarrow> Q w \<Longrightarrow> Q (snd (call c w))"
    and closures: "\<And>r w. Q w \<Longrightarrow> Q (undo r w)"
  shows "Q (world f) \<Longrightarrow> Q (world (frame_of (steps call undo xs f)))"
  using calls
proof (induction xs arbitrary: f)
  case Nil
  then show ?case by (simp add: frame_of_def)
next
  case (Cons i xs)
  have i: "Q (world (frame_of (step call undo i f)))"
  proof (rule step_world_stable [where Q = Q])
    fix c w assume "c \<in> set (calls_of [i])" and "Q w"
    moreover have "set (calls_of [i]) \<subseteq> set (calls_of (i # xs))"
      using calls_of_append [of "[i]" xs] by simp
    ultimately show "Q (snd (call c w))" using Cons.prems(2) by blast
  next
    show "\<And>r w. Q w \<Longrightarrow> Q (undo r w)" by (rule closures)
  next
    show "Q (world f)" by (rule Cons.prems(1))
  qed
  show ?case
  proof (cases "step call undo i f")
    case (Inl failure)
    with i show ?thesis by simp
  next
    case (Inr g)
    with i have "Q (world g)" by (simp add: frame_of_def)
    moreover have "\<And>c w. c \<in> set (calls_of xs) \<Longrightarrow> Q w \<Longrightarrow> Q (snd (call c w))"
      using Cons.prems(2) calls_of_Cons_subset [of xs i] by blast
    ultimately have "Q (world (frame_of (steps call undo xs g)))" by (rule Cons.IH)
    with Inr show ?thesis by simp
  qed
qed

lemma run_closures_stable:
  assumes stable: "\<And>r w. Q w \<Longrightarrow> Q (undo r w)"
  shows "Q w \<Longrightarrow> Q (run_closures undo rv w)"
proof (induction rv arbitrary: w)
  case Nil
  then show ?case by simp
next
  case (Cons r rv)
  from Cons.prems have "Q (undo r w)" by (rule stable)
  then have "Q (run_closures undo rv (undo r w))" by (rule Cons.IH)
  then show ?case by simp
qed

lemma run_closures_establish:
  assumes stable: "\<And>r w. Q w \<Longrightarrow> Q (undo r w)" and est: "\<And>w. Q (undo r0 w)"
  shows "r0 \<in> set rv \<Longrightarrow> Q (run_closures undo rv w)"
proof (induction rv arbitrary: w)
  case Nil
  then show ?case by simp
next
  case (Cons r rv)
  show ?case
  proof (cases "r = r0")
    case True
    have "Q (run_closures undo rv (undo r0 w))"
    proof (rule run_closures_stable [where Q = Q])
      show "\<And>r w. Q w \<Longrightarrow> Q (undo r w)" by (rule stable)
      show "Q (undo r0 w)" by (rule est)
    qed
    with True show ?thesis by simp
  next
    case False
    with Cons.prems have "r0 \<in> set rv" by auto
    from Cons.IH [OF this] show ?thesis by simp
  qed
qed

lemma run_defers_stable:
  assumes stable: "\<And>r w. Q w \<Longrightarrow> Q (undo r w)"
  shows "Q w \<Longrightarrow> Q (run_defers undo ds rv w)"
proof (induction ds arbitrary: rv w)
  case Nil
  then show ?case by simp
next
  case (Cons d ds)
  show ?case
  proof (cases d)
    case (Deferred r)
    from Cons.prems have "Q (undo r w)" by (rule stable)
    then have "Q (run_defers undo ds rv (undo r w))" by (rule Cons.IH)
    with Deferred show ?thesis by simp
  next
    case Deferred_RevertFail
    have "Q (run_closures undo rv w)"
    proof (rule run_closures_stable [where Q = Q])
      show "\<And>r w. Q w \<Longrightarrow> Q (undo r w)" by (rule stable)
      show "Q w" by (rule Cons.prems)
    qed
    then have "Q (run_defers undo ds [] (run_closures undo rv w))" by (rule Cons.IH)
    with Deferred_RevertFail show ?thesis by simp
  qed
qed

lemma run_defers_establish:
  assumes stable: "\<And>r w. Q w \<Longrightarrow> Q (undo r w)" and est: "\<And>w. Q (undo r0 w)"
  shows "Deferred_RevertFail \<in> set ds \<Longrightarrow> r0 \<in> set rv \<Longrightarrow> Q (run_defers undo ds rv w)"
proof (induction ds arbitrary: w)
  case Nil
  then show ?case by simp
next
  case (Cons d ds)
  show ?case
  proof (cases d)
    case (Deferred r)
    with Cons.prems have "Deferred_RevertFail \<in> set ds" by auto
    then have "Q (run_defers undo ds rv (undo r w))" using Cons.prems(2) by (rule Cons.IH)
    with Deferred show ?thesis by simp
  next
    case Deferred_RevertFail
    have "Q (run_closures undo rv w)"
    proof (rule run_closures_establish [where Q = Q and ?r0.0 = r0])
      show "\<And>r w. Q w \<Longrightarrow> Q (undo r w)" by (rule stable)
      show "\<And>w. Q (undo r0 w)" by (rule est)
      show "r0 \<in> set rv" by (rule Cons.prems(2))
    qed
    have "Q (run_defers undo ds [] (run_closures undo rv w))"
    proof (rule run_defers_stable [where Q = Q])
      show "\<And>r w. Q w \<Longrightarrow> Q (undo r w)" by (rule stable)
      show "Q (run_closures undo rv w)" by fact
    qed
    with Deferred_RevertFail show ?thesis by simp
  qed
qed

lemma run_defers_establish_deferred:
  assumes stable: "\<And>r w. Q w \<Longrightarrow> Q (undo r w)" and est: "\<And>w. Q (undo r0 w)"
  shows "Deferred r0 \<in> set ds \<Longrightarrow> Q (run_defers undo ds rv w)"
proof (induction ds arbitrary: rv w)
  case Nil
  then show ?case by simp
next
  case (Cons d ds)
  show ?case
  proof (cases "d = Deferred r0")
    case True
    have "Q (run_defers undo ds rv (undo r0 w))"
    proof (rule run_defers_stable [where Q = Q])
      show "\<And>r w. Q w \<Longrightarrow> Q (undo r w)" by (rule stable)
      show "Q (undo r0 w)" by (rule est)
    qed
    with True show ?thesis by simp
  next
    case False
    with Cons.prems have in_ds: "Deferred r0 \<in> set ds" by auto
    show ?thesis
    proof (cases d)
      case (Deferred r)
      from Cons.IH [OF in_ds] Deferred show ?thesis by simp
    next
      case Deferred_RevertFail
      from Cons.IH [OF in_ds] Deferred_RevertFail show ?thesis by simp
    qed
  qed
qed







text \<open>
  A function without \<^verbatim>\<open>Do\<close> and \<^verbatim>\<open>CallOnFail\<close> runs no closure before it returns:
  its steps do not depend on what the closures do.
\<close>

lemma step_plain:
  "(\<forall>r. i \<noteq> Do r) \<Longrightarrow> (\<forall>c r. i \<noteq> CallOnFail c r)
   \<Longrightarrow> step call undo i f = step call undo' i f"
  by (cases i) auto

lemma steps_plain:
  "(\<forall>r. Do r \<notin> set xs) \<Longrightarrow> (\<forall>c r. CallOnFail c r \<notin> set xs)
   \<Longrightarrow> steps call undo xs f = steps call undo' xs f"
proof (induction xs arbitrary: f)
  case Nil
  show ?case by simp
next
  case (Cons i xs)
  from Cons.prems have "step call undo i f = step call undo' i f"
    by (intro step_plain) auto
  moreover from Cons.prems have "\<And>g. steps call undo xs g = steps call undo' xs g"
    by (intro Cons.IH) auto
  ultimately show ?case by (simp split: sum.splits)
qed

lemma steps_plain_world_stable:
  assumes plain: "\<forall>r. Do r \<notin> set xs" "\<forall>c r. CallOnFail c r \<notin> set xs"
    and calls: "\<And>c w. c \<in> set (calls_of xs) \<Longrightarrow> Q w \<Longrightarrow> Q (snd (call c w))"
    and start: "Q (world f)"
  shows "Q (world (frame_of (steps call undo xs f)))"
proof -
  have "Q (world (frame_of (steps call (\<lambda>r w. w) xs f)))"
    using calls _ start by (rule steps_world_stable)
  with steps_plain [OF plain, of call undo f "\<lambda>r w. w"] show ?thesis by simp
qed

text \<open>The closures that a frame holds were registered by the instructions run so far.\<close>

lemma step_reverter_within:
  "set (reverter (frame_of (step call undo i f))) \<subseteq> set (reverter f) \<union> {r. i = RevertAdd r}"
  by (cases i) (auto simp: frame_of_def)

lemma steps_reverter_within:
  "set (reverter (frame_of (steps call undo xs f)))
     \<subseteq> set (reverter f) \<union> {r. RevertAdd r \<in> set xs}"
proof (induction xs arbitrary: f)
  case Nil
  show ?case by (simp add: frame_of_def)
next
  case (Cons i xs)
  show ?case
  proof (cases "step call undo i f")
    case (Inl failure)
    with step_reverter_within [of call undo i f] show ?thesis by auto
  next
    case (Inr g)
    with step_reverter_within [of call undo i f]
    have "set (reverter g) \<subseteq> set (reverter f) \<union> {r. i = RevertAdd r}"
      by (simp add: frame_of_def)
    with Cons.IH [of g] Inr show ?thesis by auto
  qed
qed

lemma step_defers_within:
  "Deferred r \<in> set (defers (frame_of (step call undo i f)))
   \<Longrightarrow> Deferred r \<in> set (defers f) \<or> i = Defer r"
  by (cases i) (auto simp: frame_of_def split: if_splits)

lemma steps_defers_within:
  "Deferred r \<in> set (defers (frame_of (steps call undo xs f)))
   \<Longrightarrow> Deferred r \<in> set (defers f) \<or> Defer r \<in> set xs"
proof (induction xs arbitrary: f)
  case Nil
  then show ?case by (simp add: frame_of_def)
next
  case (Cons i xs)
  show ?case
  proof (cases "step call undo i f")
    case (Inl failure)
    with Cons.prems step_defers_within [of r call undo i f] show ?thesis by auto
  next
    case (Inr g)
    with Cons.prems have "Deferred r \<in> set (defers (frame_of (steps call undo xs g)))" by simp
    then have "Deferred r \<in> set (defers g) \<or> Defer r \<in> set xs" by (rule Cons.IH)
    moreover from Inr step_defers_within [of r call undo i f]
    have "Deferred r \<in> set (defers g) \<Longrightarrow> Deferred r \<in> set (defers f) \<or> i = Defer r"
      by (simp add: frame_of_def)
    ultimately show ?thesis by auto
  qed
qed

text \<open>Leaving keeps what the closures that run keep.\<close>

lemma run_closures_stable_on:
  "(\<And>r w. r \<in> set rv \<Longrightarrow> Q w \<Longrightarrow> Q (undo r w)) \<Longrightarrow> Q w \<Longrightarrow> Q (run_closures undo rv w)"
proof (induction rv arbitrary: w)
  case Nil
  then show ?case by simp
next
  case (Cons r rv)
  from Cons.prems have "Q (undo r w)" by simp
  moreover have "\<And>r' w'. r' \<in> set rv \<Longrightarrow> Q w' \<Longrightarrow> Q (undo r' w')"
    using Cons.prems(1) by simp
  ultimately have "Q (run_closures undo rv (undo r w))" by (intro Cons.IH)
  then show ?case by simp
qed

lemma run_defers_stable_on:
  "(\<And>r w. r \<in> set rv \<or> Deferred r \<in> set ds \<Longrightarrow> Q w \<Longrightarrow> Q (undo r w))
   \<Longrightarrow> Q w \<Longrightarrow> Q (run_defers undo ds rv w)"
proof (induction ds arbitrary: rv w)
  case Nil
  then show ?case by simp
next
  case (Cons d ds)
  show ?case
  proof (cases d)
    case (Deferred r)
    with Cons.prems have "Q (undo r w)" by simp
    moreover have "\<And>r' w'. r' \<in> set rv \<or> Deferred r' \<in> set ds \<Longrightarrow> Q w' \<Longrightarrow> Q (undo r' w')"
      using Cons.prems(1) by auto
    ultimately have "Q (run_defers undo ds rv (undo r w))" by (intro Cons.IH)
    with Deferred show ?thesis by simp
  next
    case Deferred_RevertFail
    have "Q (run_closures undo rv w)"
      using Cons.prems by (intro run_closures_stable_on [where Q = Q]) auto
    moreover have "\<And>r' w'. r' \<in> set [] \<or> Deferred r' \<in> set ds \<Longrightarrow> Q w' \<Longrightarrow> Q (undo r' w')"
      using Cons.prems(1) by auto
    ultimately have "Q (run_defers undo ds [] (run_closures undo rv w))" by (intro Cons.IH)
    with Deferred_RevertFail show ?thesis by simp
  qed
qed

text \<open>What a call that has succeeded establishes holds at the end of the function.\<close>

lemma steps_success_stable:
  assumes calls: "\<And>c w. fst (call c w) \<Longrightarrow> Q w \<Longrightarrow> Q (snd (call c w))"
    and closures: "\<And>r w. Q w \<Longrightarrow> Q (undo r w)"
  shows "Q (world f) \<Longrightarrow> steps call undo xs f = Inr g \<Longrightarrow> Q (world g)"
proof (induction xs arbitrary: f)
  case Nil
  then show ?case by simp
next
  case (Cons i xs)
  from Cons.prems(2) obtain f1 where f1: "step call undo i f = Inr f1"
    and rest: "steps call undo xs f1 = Inr g"
    by (auto split: sum.splits)
  from f1 Cons.prems(1) have "Q (world f1)"
    using calls closures by (cases i) (auto split: if_splits)
  then show ?case using rest by (rule Cons.IH)
qed

lemma steps_establishes:
  assumes est: "\<And>w. fst (call c0 w) \<Longrightarrow> Q (snd (call c0 w))"
    and calls: "\<And>c w. fst (call c w) \<Longrightarrow> Q w \<Longrightarrow> Q (snd (call c w))"
    and closures: "\<And>r w. Q w \<Longrightarrow> Q (undo r w)"
  shows "Call c0 \<in> set xs \<Longrightarrow> steps call undo xs f = Inr g \<Longrightarrow> Q (world g)"
proof (induction xs arbitrary: f)
  case Nil
  then show ?case by simp
next
  case (Cons i xs)
  from Cons.prems(2) obtain f1 where f1: "step call undo i f = Inr f1"
    and rest: "steps call undo xs f1 = Inr g"
    by (auto split: sum.splits)
  show ?case
  proof (cases "i = Call c0")
    case True
    with f1 have "Q (world f1)" using est by (auto split: if_splits)
    show ?thesis
    proof (rule steps_success_stable [where Q = Q and call = call and undo = undo])
      show "\<And>c w. fst (call c w) \<Longrightarrow> Q w \<Longrightarrow> Q (snd (call c w))" by (rule calls)
      show "\<And>r w. Q w \<Longrightarrow> Q (undo r w)" by (rule closures)
      show "Q (world f1)" by fact
      show "steps call undo xs f1 = Inr g" by (rule rest)
    qed
  next
    case False
    with Cons.prems(1) have "Call c0 \<in> set xs" by simp
    then show ?thesis using rest by (rule Cons.IH)
  qed
qed
subsection \<open>start: what a failed start leaves behind\<close>

text \<open>The calls and the closures of the pieces of start.\<close>

lemma start_load_devices_calls:
  "c \<in> set (calls_of (start_load_devices devs))
   \<Longrightarrow> (\<exists>name. c = C_deviceLoad name) \<or> (\<exists>name. c = C_PreStartCheck name)"
  by (induction devs) (auto simp: calls_of_append split: if_splits)

lemma start_start_devices_calls:
  "c \<in> set (calls_of (start_start_devices devs)) \<Longrightarrow> \<exists>name. c = C_deviceStart name"
  by (induction devs) (auto simp: calls_of_append split: if_splits)

lemma start_load_devices_instrs:
  "i \<in> set (start_load_devices devs) \<Longrightarrow> \<exists>c. i = Call c"
  by (induction devs) (auto split: if_splits)

lemma start_start_devices_instrs:
  "i \<in> set (start_start_devices devs)
   \<Longrightarrow> (\<exists>c. i = Call c) \<or> (\<exists>name. i = RevertAdd (R_deviceStop name))
       \<or> (\<exists>name. i = RevertAdd (R_runConf_Revert name))"
  by (induction devs) (auto split: if_splits)

lemma start_until_spawn_instrs:
  assumes "i \<in> set (start_until_spawn devs)"
  shows "(\<exists>c. i = Call c) \<or> (\<exists>name. i = RevertAdd (R_deviceStop name))
       \<or> (\<exists>name. i = RevertAdd (R_runConf_Revert name))
       \<or> i = RevertAdd R_configDriveMountPathClear \<or> i = Defer D_closeFiles"
  using assms start_load_devices_instrs [of i devs] start_start_devices_instrs [of i devs]
  by (auto simp: start_until_spawn_def start_prepare_def start_config_drive_def
        start_configure_def)

lemma start_until_spawn_calls:
  assumes "c \<in> set (calls_of (start_until_spawn devs))"
  shows "c \<notin> set (calls_of start_begin)" and "c \<noteq> C_StartWithFiles" and "c \<noteq> C_Wait"
    and "c \<noteq> C_pid" and "c \<notin> set (calls_of start_monitor)"
    and "c \<notin> set (calls_of start_finish)"
  using assms start_load_devices_calls [of c devs] start_start_devices_calls [of c devs]
  by (auto simp: start_until_spawn_def calls_of_append start_prepare_def start_config_drive_def
        start_configure_def start_begin_def start_monitor_def start_finish_def)

lemma start_until_spawn_no_success: "RevertSuccess \<notin> set (start_until_spawn devs)"
  using start_until_spawn_instrs [of RevertSuccess devs] by auto

lemma start_monitor_calls:
  assumes "c \<in> set (calls_of start_monitor)"
  shows "c \<notin> set (calls_of start_begin)" and "c \<noteq> C_StartWithFiles" and "c \<noteq> C_Wait"
    and "c \<noteq> C_pid" and "c \<notin> set (calls_of (start_until_spawn devs))"
    and "c \<notin> set (calls_of start_finish)"
  using assms start_load_devices_calls [of c devs] start_start_devices_calls [of c devs]
  by (auto simp: start_until_spawn_def calls_of_append start_prepare_def start_config_drive_def
        start_configure_def start_begin_def start_monitor_def start_finish_def)

lemma start_launch_calls:
  assumes "c = C_StartWithFiles \<or> c = C_Wait \<or> c = C_pid"
  shows "c \<notin> set (calls_of start_begin)" and "c \<notin> set (calls_of (start_until_spawn devs))"
    and "c \<notin> set (calls_of start_monitor)" and "c \<notin> set (calls_of start_finish)"
  using assms start_load_devices_calls [of c devs] start_start_devices_calls [of c devs]
  by (auto simp: start_until_spawn_def calls_of_append start_prepare_def start_config_drive_def
        start_configure_def start_begin_def start_monitor_def start_finish_def)

text \<open>What the calls and the closures keep.\<close>

lemma cleanup_start_call: "cleanup (snd (start_call_sem e c w)) = cleanup w"
  by (cases c) (simp_all add: start_call_sem_def)

lemma volatile_written_start_call:
  "volatile_written w \<Longrightarrow> volatile_written (snd (start_call_sem e c w))"
  by (cases c) (simp_all add: start_call_sem_def)

lemma start_call_keeps_running:
  "c \<noteq> C_StartWithFiles \<Longrightarrow> c \<noteq> C_Wait \<Longrightarrow> c \<noteq> C_pid \<Longrightarrow> \<not> qemu_running w
   \<Longrightarrow> \<not> qemu_running (snd (start_call_sem e c w))"
  by (cases c) (simp_all add: start_call_sem_def)

lemma cleanup_start_undo: "cleanup (start_undo e r w) = cleanup w @ [r]"
  by (cases r) (simp_all add: start_undo_def)

lemma qemu_running_start_undo: "\<not> qemu_running w \<Longrightarrow> \<not> qemu_running (start_undo e r w)"
  by (cases r) (simp_all add: start_undo_def)

lemma qemu_running_kept_start_undo:
  "r \<noteq> R_killQemuProcess \<Longrightarrow> r \<noteq> R_Stop
   \<Longrightarrow> qemu_running (start_undo e r w) = qemu_running w"
  by (cases r) (simp_all add: start_undo_def)

lemma volatile_written_start_undo:
  "volatile_written w \<Longrightarrow> volatile_written (start_undo e r w)"
  by (cases r) (simp_all add: start_undo_def)

lemma config_mounted_start_undo: "\<not> config_mounted w \<Longrightarrow> \<not> config_mounted (start_undo e r w)"
  by (cases r) (simp_all add: start_undo_def)

lemma op_lock_held_start_undo: "\<not> op_lock_held w \<Longrightarrow> \<not> op_lock_held (start_undo e r w)"
  by (cases r) (simp_all add: start_undo_def)

lemma in_cleanup_start_undo: "r0 \<in> set (cleanup w) \<Longrightarrow> r0 \<in> set (cleanup (start_undo e r w))"
  by (simp add: cleanup_start_undo)

text \<open>What leaving the function does, given what the frame holds.\<close>

lemma leave_runs_closure:
  assumes "Deferred_RevertFail \<in> set (defers f)" and "r0 \<in> set (reverter f)"
  shows "r0 \<in> set (cleanup (leave (start_undo e) f))"
  unfolding leave_def
proof (rule run_defers_establish [where Q = "\<lambda>w. r0 \<in> set (cleanup w)" and ?r0.0 = r0])
  show "\<And>r w. r0 \<in> set (cleanup w) \<Longrightarrow> r0 \<in> set (cleanup (start_undo e r w))"
    by (rule in_cleanup_start_undo)
  show "\<And>w. r0 \<in> set (cleanup (start_undo e r0 w))" by (simp add: cleanup_start_undo)
  show "Deferred_RevertFail \<in> set (defers f)" by fact
  show "r0 \<in> set (reverter f)" by fact
qed

lemma leave_kills:
  assumes "Deferred_RevertFail \<in> set (defers f)" and "R_killQemuProcess \<in> set (reverter f)"
    and "kill_ok e"
  shows "\<not> qemu_running (leave (start_undo e) f)"
  unfolding leave_def
proof (rule run_defers_establish [where Q = "\<lambda>w. \<not> qemu_running w" and ?r0.0 = R_killQemuProcess])
  show "\<And>r w. \<not> qemu_running w \<Longrightarrow> \<not> qemu_running (start_undo e r w)"
    by (rule qemu_running_start_undo)
  show "\<And>w. \<not> qemu_running (start_undo e R_killQemuProcess w)"
    using \<open>kill_ok e\<close> by (simp add: start_undo_def)
  show "Deferred_RevertFail \<in> set (defers f)" by fact
  show "R_killQemuProcess \<in> set (reverter f)" by fact
qed

lemma leave_unmounts:
  assumes "Deferred_RevertFail \<in> set (defers f)" and "R_unmount \<in> set (reverter f)"
    and "unmount_ok e"
  shows "\<not> config_mounted (leave (start_undo e) f)"
  unfolding leave_def
proof (rule run_defers_establish [where Q = "\<lambda>w. \<not> config_mounted w" and ?r0.0 = R_unmount])
  show "\<And>r w. \<not> config_mounted w \<Longrightarrow> \<not> config_mounted (start_undo e r w)"
    by (rule config_mounted_start_undo)
  show "\<And>w. \<not> config_mounted (start_undo e R_unmount w)"
    using \<open>unmount_ok e\<close> by (simp add: start_undo_def)
  show "Deferred_RevertFail \<in> set (defers f)" by fact
  show "R_unmount \<in> set (reverter f)" by fact
qed

lemma leave_releases_lock:
  assumes "Deferred D_opDone \<in> set (defers f)"
  shows "\<not> op_lock_held (leave (start_undo e) f)"
  unfolding leave_def
proof (rule run_defers_establish_deferred [where Q = "\<lambda>w. \<not> op_lock_held w" and ?r0.0 = D_opDone])
  show "\<And>r w. \<not> op_lock_held w \<Longrightarrow> \<not> op_lock_held (start_undo e r w)"
    by (rule op_lock_held_start_undo)
  show "\<And>w. \<not> op_lock_held (start_undo e D_opDone w)" by (simp add: start_undo_def)
  show "Deferred D_opDone \<in> set (defers f)" by fact
qed

lemma leave_keeps_cleanup:
  assumes "r0 \<in> set (cleanup (world f))"
  shows "r0 \<in> set (cleanup (leave (start_undo e) f))"
  unfolding leave_def
proof (rule run_defers_stable [where Q = "\<lambda>w. r0 \<in> set (cleanup w)"])
  show "\<And>r w. r0 \<in> set (cleanup w) \<Longrightarrow> r0 \<in> set (cleanup (start_undo e r w))"
    by (rule in_cleanup_start_undo)
  show "r0 \<in> set (cleanup (world f))" by fact
qed

lemma leave_keeps_volatile:
  assumes "volatile_written (world f)"
  shows "volatile_written (leave (start_undo e) f)"
  unfolding leave_def
proof (rule run_defers_stable [where Q = volatile_written])
  show "\<And>r w. volatile_written w \<Longrightarrow> volatile_written (start_undo e r w)"
    by (rule volatile_written_start_undo)
  show "volatile_written (world f)" by fact
qed

text \<open>
  Leaving without killQemuProcess and Stop among the closures leaves the QEMU process as
  it is.
\<close>

lemma leave_without_kill:
  assumes rv: "\<And>r. r \<in> set (reverter f) \<Longrightarrow> r \<noteq> R_killQemuProcess \<and> r \<noteq> R_Stop"
    and ds: "\<And>r. Deferred r \<in> set (defers f) \<Longrightarrow> r \<noteq> R_killQemuProcess \<and> r \<noteq> R_Stop"
    and cl: "R_killQemuProcess \<notin> set (cleanup (world f))"
  shows "qemu_running (leave (start_undo e) f) = qemu_running (world f)"
    and "R_killQemuProcess \<notin> set (cleanup (leave (start_undo e) f))"
proof -
  let ?b = "qemu_running (world f)"
  have "qemu_running (run_defers (start_undo e) (defers f) (reverter f) (world f)) = ?b"
  proof (rule run_defers_stable_on [where Q = "\<lambda>w. qemu_running w = ?b"])
    fix r and w :: start_world
    assume "r \<in> set (reverter f) \<or> Deferred r \<in> set (defers f)" and "qemu_running w = ?b"
    with rv ds show "qemu_running (start_undo e r w) = ?b"
      by (auto simp: qemu_running_kept_start_undo)
  next
    show "qemu_running (world f) = ?b" by simp
  qed
  then show "qemu_running (leave (start_undo e) f) = qemu_running (world f)"
    by (simp add: leave_def)
  have "R_killQemuProcess \<notin> set (cleanup (run_defers (start_undo e) (defers f) (reverter f) (world f)))"
  proof (rule run_defers_stable_on [where Q = "\<lambda>w. R_killQemuProcess \<notin> set (cleanup w)"])
    fix r and w :: start_world
    assume "r \<in> set (reverter f) \<or> Deferred r \<in> set (defers f)"
      and "R_killQemuProcess \<notin> set (cleanup w)"
    with rv ds show "R_killQemuProcess \<notin> set (cleanup (start_undo e r w))"
      by (auto simp: cleanup_start_undo)
  next
    show "R_killQemuProcess \<notin> set (cleanup (world f))" by (rule cl)
  qed
  then show "R_killQemuProcess \<notin> set (cleanup (leave (start_undo e) f))"
    by (simp add: leave_def)
qed

lemma start_failed:
  assumes "start e devs = (Some c, w)"
  obtains f where "steps (start_call_sem e) (start_undo e) (start_prog devs) start_frame0 = Inl (c, f)"
    and "w = leave (start_undo e) f"
  using assms
  by (auto simp: start_def run_def start_frame0_def split: sum.splits prod.splits)

lemma status_after_start_Stopped:
  "\<not> qemu_running w \<Longrightarrow> \<not> op_lock_held w \<Longrightarrow> status_after_start isTrue e w = Stopped"
  by (simp add: status_after_start_def statusCode_def status_of_pid_def)

lemma status_after_start_Running:
  "qemu_running w \<Longrightarrow> \<not> op_lock_held w \<Longrightarrow> status_after_start isTrue e w = Running"
  by (simp add: status_after_start_def statusCode_def)

text \<open>The operation lock: \<^verbatim>\<open>op.Done\<close> is deferred first, so every return releases it.\<close>

lemma start_releases_lock:
  assumes run: "start e devs = (Some c, w)"
  shows "\<not> op_lock_held w"
proof -
  let ?call = "start_call_sem e" and ?undo = "start_undo e"
  let ?R = "tl start_begin @ start_until_spawn devs @ start_launch @ start_spawned
            @ start_monitor @ start_finish"
  from run obtain f where st: "steps ?call ?undo (start_prog devs) start_frame0 = Inl (c, f)"
    and w: "w = leave ?undo f"
    by (rule start_failed)
  have prog: "start_prog devs = [Defer D_opDone] @ ?R"
    by (simp add: start_prog_def start_begin_def)
  from st [unfolded prog] have "Deferred D_opDone \<in> set (defers f)"
  proof (cases rule: steps_append_fails)
    case first
    then show ?thesis by simp
  next
    case (second g)
    from second(1) have "Deferred D_opDone \<in> set (defers g)" by auto
    moreover from steps_keeps_defers [of g ?call ?undo ?R] second(2)
    have "set (defers g) \<subseteq> set (defers f)" by (simp add: frame_of_def)
    ultimately show ?thesis by auto
  qed
  then show ?thesis unfolding w by (rule leave_releases_lock)
qed

text \<open>A failure before the mount: nothing has been acquired.\<close>

lemma start_begin_fails:
  assumes "steps (start_call_sem e) (start_undo e) start_begin start_frame0 = Inl (c, f)"
  shows "leave (start_undo e) f = start_world0\<lparr>op_lock_held := False, cleanup := [D_opDone]\<rparr>"
  using assms
  by (auto simp: start_begin_def start_frame0_def start_call_sem_def leave_def start_undo_def
        start_world0_def split: if_splits)

lemma start_fails_before_mount:
  assumes run: "start e devs = (Some c, w)" and c: "c \<in> set (calls_of start_begin)"
  shows "w = start_world0\<lparr>op_lock_held := False, cleanup := [D_opDone]\<rparr>"
proof -
  let ?call = "start_call_sem e" and ?undo = "start_undo e"
  let ?R = "start_until_spawn devs @ start_launch @ start_spawned @ start_monitor @ start_finish"
  from run obtain f where st: "steps ?call ?undo (start_prog devs) start_frame0 = Inl (c, f)"
    and w: "w = leave ?undo f"
    by (rule start_failed)
  have prog: "start_prog devs = start_begin @ ?R"
    by (simp add: start_prog_def)
  have cR: "c \<notin> set (calls_of ?R)"
    using c start_until_spawn_calls(1) [of c devs]
    by (auto simp: calls_of_append start_begin_def start_launch_def start_spawned_def
          start_monitor_def start_finish_def)
  from st [unfolded prog] have b: "steps ?call ?undo start_begin start_frame0 = Inl (c, f)"
  proof (cases rule: steps_append_fails)
    case first
    then show ?thesis .
  next
    case (second g)
    then have "c \<in> set (calls_of ?R)" using steps_fails_in by fast
    with cR show ?thesis by simp
  qed
  then show ?thesis unfolding w by (rule start_begin_fails)
qed

text \<open>The frame after the mount: the closures and deferred calls registered so far.\<close>

lemma start_begin_frame:
  assumes "steps (start_call_sem e) (start_undo e) start_begin start_frame0 = Inr f"
  shows "R_unmount \<in> set (reverter f)" and "Deferred_RevertFail \<in> set (defers f)"
proof -
  show "R_unmount \<in> set (reverter f)"
    by (rule steps_reverter_added [OF _ _ assms]) (simp_all add: start_begin_def)
  show "Deferred_RevertFail \<in> set (defers f)"
    by (rule steps_defer_added [where d = DeferRevertFail, OF _ _ assms])
       (simp_all add: start_begin_def)
qed

text \<open>A failure after the mount and before \<^verbatim>\<open>reverter.Success()\<close>: the unmount closure runs.\<close>

lemma start_fails_mounted:
  assumes run: "start e devs = (Some c, w)"
    and cB: "c \<notin> set (calls_of start_begin)" and cF: "c \<notin> set (calls_of start_finish)"
  shows "R_unmount \<in> set (cleanup w)" and "unmount_ok e \<Longrightarrow> \<not> config_mounted w"
proof -
  let ?call = "start_call_sem e" and ?undo = "start_undo e"
  let ?M = "start_until_spawn devs @ start_launch @ start_spawned @ start_monitor"
  from run obtain f where st: "steps ?call ?undo (start_prog devs) start_frame0 = Inl (c, f)"
    and w: "w = leave ?undo f"
    by (rule start_failed)
  have prog: "start_prog devs = start_begin @ (?M @ start_finish)"
    by (simp add: start_prog_def)
  from st [unfolded prog]
  obtain fB where fB: "steps ?call ?undo start_begin start_frame0 = Inr fB"
    and restB: "steps ?call ?undo (?M @ start_finish) fB = Inl (c, f)"
  proof (cases rule: steps_append_fails)
    case first
    then have "c \<in> set (calls_of start_begin)" by (rule steps_fails_in)
    with cB show ?thesis by simp
  next
    case (second g)
    then show ?thesis by (rule that)
  qed
  from restB have mid: "steps ?call ?undo ?M fB = Inl (c, f)"
  proof (cases rule: steps_append_fails)
    case first
    then show ?thesis .
  next
    case (second g)
    then have "c \<in> set (calls_of start_finish)" using steps_fails_in by fast
    with cF show ?thesis by simp
  qed
  have noS: "RevertSuccess \<notin> set ?M"
    using start_until_spawn_no_success [of devs]
    by (simp add: start_launch_def start_spawned_def start_monitor_def)
  from steps_keeps_reverter [OF noS, of fB ?call ?undo] mid
  have rsub: "set (reverter fB) \<subseteq> set (reverter f)" by (simp add: frame_of_def)
  from steps_keeps_defers [of fB ?call ?undo ?M] mid
  have dsub: "set (defers fB) \<subseteq> set (defers f)" by (simp add: frame_of_def)
  from start_begin_frame [OF fB] rsub dsub
  have u: "R_unmount \<in> set (reverter f)" and d: "Deferred_RevertFail \<in> set (defers f)"
    by auto
  show "R_unmount \<in> set (cleanup w)" unfolding w using d u by (rule leave_runs_closure)
  show "unmount_ok e \<Longrightarrow> \<not> config_mounted w" unfolding w using d u by (rule leave_unmounts)
qed

text \<open>
  A failure up to \<^verbatim>\<open>d.pid()\<close>: killQemuProcess has not been registered, and no closure
  touches the QEMU process.
\<close>

lemma start_early_instrs:
  assumes "i \<in> set (start_begin @ start_until_spawn devs @ start_launch @ [Call C_pid])"
  shows "(\<exists>c. i = Call c)
       \<or> (\<exists>r. i = RevertAdd r \<and> r \<noteq> R_killQemuProcess \<and> r \<noteq> R_Stop)
       \<or> (\<exists>r. i = Defer r \<and> r \<noteq> R_killQemuProcess \<and> r \<noteq> R_Stop)
       \<or> i = DeferRevertFail"
  using assms start_until_spawn_instrs [of i devs]
  by (auto simp: start_begin_def start_launch_def)

lemma start_fails_early:
  assumes run: "start e devs = (Some c, w)"
    and c: "c \<in> set (calls_of (start_until_spawn devs)) \<or> c = C_StartWithFiles \<or> c = C_Wait
            \<or> c = C_pid"
  obtains f where
    "steps (start_call_sem e) (start_undo e)
       (start_begin @ start_until_spawn devs @ start_launch @ [Call C_pid]) start_frame0
     = Inl (c, f)"
    and "qemu_running w = qemu_running (world f)"
    and "R_killQemuProcess \<notin> set (cleanup w)"
proof -
  let ?call = "start_call_sem e" and ?undo = "start_undo e"
  let ?E = "start_begin @ start_until_spawn devs @ start_launch @ [Call C_pid]"
  let ?R = "[RevertAdd R_killQemuProcess] @ start_monitor @ start_finish"
  from run obtain f where st: "steps ?call ?undo (start_prog devs) start_frame0 = Inl (c, f)"
    and w: "w = leave ?undo f"
    by (rule start_failed)
  have prog: "start_prog devs = ?E @ ?R"
    by (simp add: start_prog_def start_spawned_def)
  have cR: "c \<notin> set (calls_of ?R)"
    using c start_until_spawn_calls(5,6) [of c devs]
    by (auto simp: calls_of_append start_monitor_def start_finish_def)
  from st [unfolded prog] have early: "steps ?call ?undo ?E start_frame0 = Inl (c, f)"
  proof (cases rule: steps_append_fails)
    case first
    then show ?thesis .
  next
    case (second g)
    then have "c \<in> set (calls_of ?R)" using steps_fails_in by fast
    with cR show ?thesis by simp
  qed
  then have f: "frame_of (steps ?call ?undo ?E start_frame0) = f" by (simp add: frame_of_def)
  have rv: "r \<noteq> R_killQemuProcess \<and> r \<noteq> R_Stop" if "r \<in> set (reverter f)" for r
  proof -
    from steps_reverter_within [of ?call ?undo ?E start_frame0] that
    have "RevertAdd r \<in> set ?E" unfolding f by (auto simp: start_frame0_def)
    with start_early_instrs [of "RevertAdd r" devs] show ?thesis by auto
  qed
  have ds: "r \<noteq> R_killQemuProcess \<and> r \<noteq> R_Stop" if "Deferred r \<in> set (defers f)" for r
  proof -
    from steps_defers_within [of r ?call ?undo ?E start_frame0] that
    have "Defer r \<in> set ?E" unfolding f by (auto simp: start_frame0_def)
    with start_early_instrs [of "Defer r" devs] show ?thesis by auto
  qed
  have "R_killQemuProcess \<notin> set (cleanup (world (frame_of (steps ?call ?undo ?E start_frame0))))"
  proof (rule steps_plain_world_stable [where Q = "\<lambda>w. R_killQemuProcess \<notin> set (cleanup w)"])
    show "\<forall>r. Do r \<notin> set ?E" using start_early_instrs [of _ devs] by blast
    show "\<forall>c r. CallOnFail c r \<notin> set ?E" using start_early_instrs [of _ devs] by blast
    show "\<And>c w. c \<in> set (calls_of ?E) \<Longrightarrow> R_killQemuProcess \<notin> set (cleanup w)
            \<Longrightarrow> R_killQemuProcess \<notin> set (cleanup (snd (start_call_sem e c w)))"
      by (simp add: cleanup_start_call)
    show "R_killQemuProcess \<notin> set (cleanup (world start_frame0))"
      by (simp add: start_frame0_def start_world0_def)
  qed
  then have cl: "R_killQemuProcess \<notin> set (cleanup (world f))" unfolding f .
  note lv = leave_without_kill [of f e, OF rv ds cl]
  show ?thesis
  proof (rule that [OF early])
    show "qemu_running w = qemu_running (world f)" unfolding w by (rule lv(1))
    show "R_killQemuProcess \<notin> set (cleanup w)" unfolding w by (rule lv(2))
  qed
qed

text \<open>The QEMU process at a failure up to \<^verbatim>\<open>d.pid()\<close>.\<close>

lemma start_not_launched:
  "\<not> qemu_running (world (frame_of (steps (start_call_sem e) (start_undo e)
       (start_begin @ start_until_spawn devs) start_frame0)))"
proof (rule steps_world_stable [where Q = "\<lambda>w. \<not> qemu_running w"])
  fix c and w :: start_world
  assume c: "c \<in> set (calls_of (start_begin @ start_until_spawn devs))" and "\<not> qemu_running w"
  from c start_until_spawn_calls(2,3,4) [of c devs]
  have "c \<noteq> C_StartWithFiles" and "c \<noteq> C_Wait" and "c \<noteq> C_pid"
    by (auto simp: calls_of_append start_begin_def)
  then show "\<not> qemu_running (snd (start_call_sem e c w))"
    using \<open>\<not> qemu_running w\<close> by (rule start_call_keeps_running)
next
  show "\<And>r w. \<not> qemu_running w \<Longrightarrow> \<not> qemu_running (start_undo e r w)"
    by (rule qemu_running_start_undo)
next
  show "\<not> qemu_running (world start_frame0)" by (simp add: start_frame0_def start_world0_def)
qed

lemma start_fails_before_launch:
  assumes run: "start e devs = (Some c, w)"
    and c: "c \<in> set (calls_of (start_until_spawn devs)) \<or> c = C_StartWithFiles"
  shows "\<not> qemu_running w" and "R_killQemuProcess \<notin> set (cleanup w)"
proof -
  let ?call = "start_call_sem e" and ?undo = "start_undo e"
  let ?BU = "start_begin @ start_until_spawn devs"
  from c have c': "c \<in> set (calls_of (start_until_spawn devs)) \<or> c = C_StartWithFiles
      \<or> c = C_Wait \<or> c = C_pid" by blast
  from run c' obtain f where
    early: "steps ?call ?undo (start_begin @ start_until_spawn devs @ start_launch @ [Call C_pid])
              start_frame0 = Inl (c, f)"
    and q: "qemu_running w = qemu_running (world f)"
    and k: "R_killQemuProcess \<notin> set (cleanup w)"
    by (rule start_fails_early)
  have "start_begin @ start_until_spawn devs @ start_launch @ [Call C_pid]
        = ?BU @ ([Call C_StartWithFiles] @ [Call C_Wait, Call C_pid])"
    by (simp add: start_launch_def)
  with early have "steps ?call ?undo (?BU @ ([Call C_StartWithFiles] @ [Call C_Wait, Call C_pid]))
      start_frame0 = Inl (c, f)" by simp
  then have "\<not> qemu_running (world f)"
  proof (cases rule: steps_append_fails)
    case first
    with start_not_launched [of e devs] show ?thesis by (simp add: frame_of_def)
  next
    case (second g)
    with start_not_launched [of e devs] have g: "\<not> qemu_running (world g)"
      by (simp add: frame_of_def)
    from second(2) show ?thesis
    proof (cases rule: steps_append_fails)
      case first
      then have "world f = world g"
        by (auto simp: start_call_sem_def split: if_splits)
      with g show ?thesis by simp
    next
      case (second g')
      from steps_fails_in [OF second(2)] c start_until_spawn_calls(3,4) [of c devs]
      show ?thesis by auto
    qed
  qed
  with q show "\<not> qemu_running w" by simp
  show "R_killQemuProcess \<notin> set (cleanup w)" by (rule k)
qed

lemma start_fails_at_Wait:
  assumes run: "start e devs = (Some C_Wait, w)"
  shows "qemu_running w = Wait_leaves_qemu e" and "R_killQemuProcess \<notin> set (cleanup w)"
proof -
  let ?call = "start_call_sem e" and ?undo = "start_undo e"
  let ?P = "start_begin @ start_until_spawn devs @ [Call C_StartWithFiles]"
  from run obtain f where
    early: "steps ?call ?undo (start_begin @ start_until_spawn devs @ start_launch @ [Call C_pid])
              start_frame0 = Inl (C_Wait, f)"
    and q: "qemu_running w = qemu_running (world f)"
    and k: "R_killQemuProcess \<notin> set (cleanup w)"
    by (rule start_fails_early) simp
  have "start_begin @ start_until_spawn devs @ start_launch @ [Call C_pid]
        = ?P @ [Call C_Wait, Call C_pid]"
    by (simp add: start_launch_def)
  with early have "steps ?call ?undo (?P @ [Call C_Wait, Call C_pid]) start_frame0 = Inl (C_Wait, f)"
    by simp
  then have "qemu_running (world f) = Wait_leaves_qemu e"
  proof (cases rule: steps_append_fails)
    case first
    then have "C_Wait \<in> set (calls_of ?P)" by (rule steps_fails_in)
    with start_launch_calls(1) [of C_Wait] start_launch_calls(2) [of C_Wait devs]
    show ?thesis by (simp add: calls_of_append)
  next
    case (second g)
    from second(2) show ?thesis
      by (auto simp: start_call_sem_def split: if_splits)
  qed
  with q show "qemu_running w = Wait_leaves_qemu e" by simp
  show "R_killQemuProcess \<notin> set (cleanup w)" by (rule k)
qed

lemma start_fails_at_pid:
  assumes run: "start e devs = (Some C_pid, w)"
  shows "qemu_running w = pid_leaves_qemu e" and "R_killQemuProcess \<notin> set (cleanup w)"
proof -
  let ?call = "start_call_sem e" and ?undo = "start_undo e"
  let ?P = "start_begin @ start_until_spawn devs @ start_launch"
  from run obtain f where
    early: "steps ?call ?undo (start_begin @ start_until_spawn devs @ start_launch @ [Call C_pid])
              start_frame0 = Inl (C_pid, f)"
    and q: "qemu_running w = qemu_running (world f)"
    and k: "R_killQemuProcess \<notin> set (cleanup w)"
    by (rule start_fails_early) simp
  from early have "steps ?call ?undo (?P @ [Call C_pid]) start_frame0 = Inl (C_pid, f)"
    by simp
  then have "qemu_running (world f) = pid_leaves_qemu e"
  proof (cases rule: steps_append_fails)
    case first
    then have "C_pid \<in> set (calls_of ?P)" by (rule steps_fails_in)
    with start_launch_calls(1) [of C_pid] start_launch_calls(2) [of C_pid devs]
    show ?thesis by (simp add: calls_of_append start_launch_def)
  next
    case (second g)
    from second(2) show ?thesis
      by (auto simp: start_call_sem_def split: if_splits)
  qed
  with q show "qemu_running w = pid_leaves_qemu e" by simp
  show "R_killQemuProcess \<notin> set (cleanup w)" by (rule k)
qed

text \<open>The volatile keys: once written they stay written, whatever fails later.\<close>

lemma start_keeps_volatile:
  assumes run: "start e devs = (Some c, w)"
    and cB: "c \<notin> set (calls_of start_begin)" and cP: "c \<notin> set (calls_of start_prepare)"
  shows "volatile_written w"
proof -
  let ?call = "start_call_sem e" and ?undo = "start_undo e"
  let ?V = "start_begin @ start_prepare"
  let ?R = "start_load_devices devs @ start_start_devices devs @ start_config_drive
            @ start_configure @ start_launch @ start_spawned @ start_monitor @ start_finish"
  from run obtain f where st: "steps ?call ?undo (start_prog devs) start_frame0 = Inl (c, f)"
    and w: "w = leave ?undo f"
    by (rule start_failed)
  have prog: "start_prog devs = ?V @ ?R"
    by (simp add: start_prog_def start_until_spawn_def)
  from st [unfolded prog]
  obtain g where g: "steps ?call ?undo ?V start_frame0 = Inr g"
    and rest: "steps ?call ?undo ?R g = Inl (c, f)"
  proof (cases rule: steps_append_fails)
    case first
    then have "c \<in> set (calls_of ?V)" by (rule steps_fails_in)
    with cB cP show ?thesis by (simp add: calls_of_append)
  next
    case (second g)
    then show ?thesis by (rule that)
  qed
  have "volatile_written (world g)"
  proof (rule steps_establishes [where Q = volatile_written and call = ?call and undo = ?undo
        and ?c0.0 = C_VolatileSet])
    show "\<And>w. fst (?call C_VolatileSet w) \<Longrightarrow> volatile_written (snd (?call C_VolatileSet w))"
      by (simp add: start_call_sem_def split: if_splits)
    show "\<And>c w. fst (?call c w) \<Longrightarrow> volatile_written w \<Longrightarrow> volatile_written (snd (?call c w))"
      by (rule volatile_written_start_call)
    show "\<And>r w. volatile_written w \<Longrightarrow> volatile_written (?undo r w)"
      by (rule volatile_written_start_undo)
    show "Call C_VolatileSet \<in> set ?V" by (simp add: start_prepare_def)
    show "steps ?call ?undo ?V start_frame0 = Inr g" by (rule g)
  qed
  then have "volatile_written (world (frame_of (steps ?call ?undo ?R g)))"
  proof (rule steps_world_stable [where Q = volatile_written, rotated 2])
    show "\<And>c w. c \<in> set (calls_of ?R) \<Longrightarrow> volatile_written w
            \<Longrightarrow> volatile_written (snd (?call c w))"
      by (rule volatile_written_start_call)
    show "\<And>r w. volatile_written w \<Longrightarrow> volatile_written (?undo r w)"
      by (rule volatile_written_start_undo)
  qed
  with rest have "volatile_written (world f)" by (simp add: frame_of_def)
  then show ?thesis unfolding w by (rule leave_keeps_volatile)
qed

text \<open>A failure over the monitor: killQemuProcess has been registered and runs.\<close>

lemma start_fails_after_spawn:
  assumes run: "start e devs = (Some c, w)" and c: "c \<in> set (calls_of start_monitor)"
  shows "R_killQemuProcess \<in> set (cleanup w)" and "kill_ok e \<Longrightarrow> \<not> qemu_running w"
proof -
  let ?call = "start_call_sem e" and ?undo = "start_undo e"
  let ?P = "start_begin @ start_until_spawn devs @ start_launch @ start_spawned"
  from run obtain f where st: "steps ?call ?undo (start_prog devs) start_frame0 = Inl (c, f)"
    and w: "w = leave ?undo f"
    by (rule start_failed)
  have prog: "start_prog devs = ?P @ (start_monitor @ start_finish)"
    by (simp add: start_prog_def)
  have cP: "c \<notin> set (calls_of ?P)"
    using start_monitor_calls(1-4) [OF c] start_monitor_calls(5) [OF c, of devs]
    by (simp add: calls_of_append start_launch_def start_spawned_def)
  have cF: "c \<notin> set (calls_of start_finish)"
    using start_monitor_calls(6) [OF c] by simp
  from st [unfolded prog]
  obtain fP where fP: "steps ?call ?undo ?P start_frame0 = Inr fP"
    and rest: "steps ?call ?undo (start_monitor @ start_finish) fP = Inl (c, f)"
  proof (cases rule: steps_append_fails)
    case first
    then have "c \<in> set (calls_of ?P)" by (rule steps_fails_in)
    with cP show ?thesis by simp
  next
    case (second g)
    then show ?thesis by (rule that)
  qed
  from rest have mon: "steps ?call ?undo start_monitor fP = Inl (c, f)"
  proof (cases rule: steps_append_fails)
    case first
    then show ?thesis .
  next
    case (second g)
    then have "c \<in> set (calls_of start_finish)" using steps_fails_in by fast
    with cF show ?thesis by simp
  qed
  have noS_P: "RevertSuccess \<notin> set ?P"
    using start_until_spawn_no_success [of devs]
    by (simp add: start_begin_def start_launch_def start_spawned_def)
  have kP: "R_killQemuProcess \<in> set (reverter fP)"
    by (rule steps_reverter_added [OF noS_P _ fP]) (simp add: start_spawned_def)
  have dP: "Deferred_RevertFail \<in> set (defers fP)"
    by (rule steps_defer_added [where d = DeferRevertFail, OF _ _ fP]) (simp_all add: start_begin_def)
  have noS_M: "RevertSuccess \<notin> set start_monitor" by (simp add: start_monitor_def)
  from steps_keeps_reverter [OF noS_M, of fP ?call ?undo] mon
  have rsub: "set (reverter fP) \<subseteq> set (reverter f)" by (simp add: frame_of_def)
  from steps_keeps_defers [of fP ?call ?undo start_monitor] mon
  have dsub: "set (defers fP) \<subseteq> set (defers f)" by (simp add: frame_of_def)
  from kP rsub have k: "R_killQemuProcess \<in> set (reverter f)" by auto
  from dP dsub have d: "Deferred_RevertFail \<in> set (defers f)" by auto
  show "R_killQemuProcess \<in> set (cleanup w)" unfolding w using d k by (rule leave_runs_closure)
  show "kill_ok e \<Longrightarrow> \<not> qemu_running w" unfolding w using d k by (rule leave_kills)
qed

text \<open>A failure after \<^verbatim>\<open>reverter.Success()\<close>: start calls Stop.\<close>

lemma start_finish_fails:
  assumes "steps (start_call_sem e) (start_undo e) start_finish g = Inl (c, f)"
  shows "R_Stop \<in> set (cleanup (world f))"
  using assms
  by (auto simp: start_finish_def start_call_sem_def cleanup_start_undo split: if_splits)

lemma start_fails_after_success:
  assumes run: "start e devs = (Some c, w)" and c: "c \<in> set (calls_of start_finish)"
  shows "R_Stop \<in> set (cleanup w)"
proof -
  let ?call = "start_call_sem e" and ?undo = "start_undo e"
  let ?P = "start_begin @ start_until_spawn devs @ start_launch @ start_spawned @ start_monitor"
  from run obtain f where st: "steps ?call ?undo (start_prog devs) start_frame0 = Inl (c, f)"
    and w: "w = leave ?undo f"
    by (rule start_failed)
  have prog: "start_prog devs = ?P @ start_finish"
    by (simp add: start_prog_def)
  have cP: "c \<notin> set (calls_of ?P)"
    using c start_until_spawn_calls(6) [of c devs]
    by (auto simp: calls_of_append start_begin_def start_launch_def start_spawned_def
          start_monitor_def start_finish_def)
  from st [unfolded prog] obtain g where "steps ?call ?undo start_finish g = Inl (c, f)"
  proof (cases rule: steps_append_fails)
    case first
    then have "c \<in> set (calls_of ?P)" by (rule steps_fails_in)
    with cP show ?thesis by simp
  next
    case (second g)
    then show ?thesis using that by blast
  qed
  then have "R_Stop \<in> set (cleanup (world f))" by (rule start_finish_fails)
  then show ?thesis unfolding w by (rule leave_keeps_cleanup)
qed

text \<open>
  C1, as the code has it. Take a run of start that returns at a failed call \<open>c\<close>; the
  call is in one of the pieces of start, and the operation lock is released wherever it
  is. Before the mount of the config volume nothing has been acquired: the world is the
  one start was entered with, but for the lock. From the mount to
  \<^verbatim>\<open>reverter.Success()\<close> the reverter runs the unmount closure, and when the unmount
  succeeds the config volume is unmounted. Up to \<^verbatim>\<open>d.pid()\<close> killQemuProcess is not
  registered and does not run: when the failure comes before QEMU is spawned, or at
  \<^verbatim>\<open>p.StartWithFiles\<close> itself, there is no QEMU process and the instance reports
  Stopped; when \<^verbatim>\<open>p.Wait\<close> fails, a QEMU process is there exactly when the failed
  launcher has left one; when \<^verbatim>\<open>d.pid()\<close> fails, the QEMU process is there exactly
  when it is still there as \<^verbatim>\<open>d.pid()\<close> returns, and the instance then reports
  Running. After \<^verbatim>\<open>d.pid()\<close> has given the process ID and before
  \<^verbatim>\<open>reverter.Success()\<close> the reverter runs killQemuProcess: when the kill succeeds no
  QEMU process is left and the instance reports Stopped. After \<^verbatim>\<open>reverter.Success()\<close>
  a failing post-start hook makes start call Stop instead. The volatile keys, once
  written, stay written whatever fails later.
\<close>

theorem start_revert:
  "start e devs = (Some c, w) \<longrightarrow>
     (c \<in> set (calls_of start_begin) \<or> c \<in> set (calls_of (start_until_spawn devs))
        \<or> c = C_StartWithFiles \<or> c = C_Wait \<or> c = C_pid
        \<or> c \<in> set (calls_of start_monitor) \<or> c \<in> set (calls_of start_finish))
     \<and> \<not> op_lock_held w
     \<and> (c \<in> set (calls_of start_begin) \<longrightarrow>
          w = start_world0\<lparr>op_lock_held := False, cleanup := [D_opDone]\<rparr>
          \<and> status_after_start isTrue e w = Stopped)
     \<and> (c \<in> set (calls_of (start_until_spawn devs)) \<or> c = C_StartWithFiles \<or> c = C_Wait
          \<or> c = C_pid \<or> c \<in> set (calls_of start_monitor) \<longrightarrow>
          R_unmount \<in> set (cleanup w) \<and> (unmount_ok e \<longrightarrow> \<not> config_mounted w))
     \<and> (c \<in> set (calls_of (start_until_spawn devs)) \<or> c = C_StartWithFiles \<longrightarrow>
          \<not> qemu_running w \<and> R_killQemuProcess \<notin> set (cleanup w)
          \<and> status_after_start isTrue e w = Stopped)
     \<and> (c = C_Wait \<longrightarrow>
          qemu_running w = Wait_leaves_qemu e \<and> R_killQemuProcess \<notin> set (cleanup w)
          \<and> (\<not> Wait_leaves_qemu e \<longrightarrow> status_after_start isTrue e w = Stopped))
     \<and> (c = C_pid \<longrightarrow>
          qemu_running w = pid_leaves_qemu e \<and> R_killQemuProcess \<notin> set (cleanup w)
          \<and> (pid_leaves_qemu e \<longrightarrow> status_after_start isTrue e w = Running)
          \<and> (\<not> pid_leaves_qemu e \<longrightarrow> status_after_start isTrue e w = Stopped))
     \<and> (c \<in> set (calls_of start_monitor) \<longrightarrow>
          R_killQemuProcess \<in> set (cleanup w)
          \<and> (kill_ok e \<longrightarrow> \<not> qemu_running w \<and> status_after_start isTrue e w = Stopped))
     \<and> (c \<in> set (calls_of start_finish) \<longrightarrow> R_Stop \<in> set (cleanup w))
     \<and> (c \<notin> set (calls_of start_begin) \<and> c \<notin> set (calls_of start_prepare) \<longrightarrow>
          volatile_written w)"
proof (intro impI conjI)
  assume run: "start e devs = (Some c, w)"
  show lock: "\<not> op_lock_held w" using run by (rule start_releases_lock)
  show "c \<in> set (calls_of start_begin) \<or> c \<in> set (calls_of (start_until_spawn devs))
        \<or> c = C_StartWithFiles \<or> c = C_Wait \<or> c = C_pid
        \<or> c \<in> set (calls_of start_monitor) \<or> c \<in> set (calls_of start_finish)"
  proof -
    from run obtain f where
      "steps (start_call_sem e) (start_undo e) (start_prog devs) start_frame0 = Inl (c, f)"
      by (rule start_failed)
    then have "c \<in> set (calls_of (start_prog devs))" by (rule steps_fails_in)
    then show ?thesis
      by (auto simp: start_prog_def calls_of_append start_launch_def start_spawned_def)
  qed
  {
    assume c: "c \<in> set (calls_of start_begin)"
    show w: "w = start_world0\<lparr>op_lock_held := False, cleanup := [D_opDone]\<rparr>"
      using run c by (rule start_fails_before_mount)
    then have "\<not> qemu_running w" by (simp add: start_world0_def)
    then show "status_after_start isTrue e w = Stopped"
      using lock by (rule status_after_start_Stopped)
  }
  {
    assume c: "c \<in> set (calls_of (start_until_spawn devs)) \<or> c = C_StartWithFiles \<or> c = C_Wait
          \<or> c = C_pid \<or> c \<in> set (calls_of start_monitor)"
    have cB: "c \<notin> set (calls_of start_begin)"
      using c start_until_spawn_calls(1) [of c devs] start_launch_calls(1) [of c]
        start_monitor_calls(1) [of c] by blast
    have cF: "c \<notin> set (calls_of start_finish)"
      using c start_until_spawn_calls(6) [of c devs] start_launch_calls(4) [of c]
        start_monitor_calls(6) [of c] by blast
    note r = start_fails_mounted [OF run cB cF]
    show "R_unmount \<in> set (cleanup w)" by (rule r(1))
    show "\<not> config_mounted w" if "unmount_ok e" using that by (rule r(2))
  }
  {
    assume c: "c \<in> set (calls_of (start_until_spawn devs)) \<or> c = C_StartWithFiles"
    note r = start_fails_before_launch [OF run c]
    show "\<not> qemu_running w" "R_killQemuProcess \<notin> set (cleanup w)" by (rule r)+
    show "status_after_start isTrue e w = Stopped"
      using r(1) lock by (rule status_after_start_Stopped)
  }
  {
    assume c: "c = C_Wait"
    note r = start_fails_at_Wait [OF run [unfolded c]]
    show "qemu_running w = Wait_leaves_qemu e" "R_killQemuProcess \<notin> set (cleanup w)"
      by (rule r)+
    show "status_after_start isTrue e w = Stopped" if "\<not> Wait_leaves_qemu e"
    proof (rule status_after_start_Stopped)
      show "\<not> qemu_running w" using that r(1) by simp
      show "\<not> op_lock_held w" by (rule lock)
    qed
  }
  {
    assume c: "c = C_pid"
    note r = start_fails_at_pid [OF run [unfolded c]]
    show "qemu_running w = pid_leaves_qemu e" "R_killQemuProcess \<notin> set (cleanup w)"
      by (rule r)+
    show "status_after_start isTrue e w = Running" if "pid_leaves_qemu e"
    proof (rule status_after_start_Running)
      show "qemu_running w" using that r(1) by simp
      show "\<not> op_lock_held w" by (rule lock)
    qed
    show "status_after_start isTrue e w = Stopped" if "\<not> pid_leaves_qemu e"
    proof (rule status_after_start_Stopped)
      show "\<not> qemu_running w" using that r(1) by simp
      show "\<not> op_lock_held w" by (rule lock)
    qed
  }
  {
    assume c: "c \<in> set (calls_of start_monitor)"
    note r = start_fails_after_spawn [OF run c]
    show "R_killQemuProcess \<in> set (cleanup w)" by (rule r(1))
    show "\<not> qemu_running w" if "kill_ok e" using that by (rule r(2))
    show "status_after_start isTrue e w = Stopped" if "kill_ok e"
      using r(2) [OF that] lock by (rule status_after_start_Stopped)
  }
  {
    assume c: "c \<in> set (calls_of start_finish)"
    show "R_Stop \<in> set (cleanup w)" using run c by (rule start_fails_after_success)
  }
  {
    assume c: "c \<notin> set (calls_of start_begin) \<and> c \<notin> set (calls_of start_prepare)"
    then show "volatile_written w" using run start_keeps_volatile by blast
  }
qed

theorem start_revert_witness:
  "start (start_env_example (\<lambda>c. c \<noteq> C_Reset) False) start_devices_example
     = (Some C_Reset,
        \<lparr>config_mounted = False, started_devices = [], config_drive_path = False,
         qemu_running = False, volatile_written = True, op_lock_held = False,
         cleanup =
           [D_closeFiles, R_killQemuProcess, R_configDriveMountPathClear,
            R_deviceStop ''root'', R_runConf_Revert ''eth0'',
            R_deviceStop ''eth0'', R_unmount, D_opDone]\<rparr>)
   \<and> C_Reset \<in> set (calls_of start_monitor)
   \<and> kill_ok (start_env_example (\<lambda>c. c \<noteq> C_Reset) False)
   \<and> status_after_start (\<lambda>s. s = ''true'') (start_env_example (\<lambda>c. c \<noteq> C_Reset) False)
         (snd (start (start_env_example (\<lambda>c. c \<noteq> C_Reset) False) start_devices_example))
       = Stopped
   \<and> fst (start (start_env_example (\<lambda>c. c \<noteq> C_deviceStart ''root'') False)
              start_devices_example) = Some (C_deviceStart ''root'')
   \<and> C_deviceStart ''root'' \<in> set (calls_of (start_until_spawn start_devices_example))
   \<and> R_unmount \<in> set (cleanup (snd (start (start_env_example (\<lambda>c. c \<noteq> C_deviceStart ''root'') False)
              start_devices_example)))
   \<and> \<not> qemu_running (snd (start (start_env_example (\<lambda>c. c \<noteq> C_deviceStart ''root'') False)
              start_devices_example))
   \<and> fst (start (start_env_example (\<lambda>c. c \<noteq> C_mount) False) start_devices_example)
       = Some C_mount
   \<and> C_mount \<in> set (calls_of start_begin)
   \<and> snd (start (start_env_example (\<lambda>c. c \<noteq> C_mount) False) start_devices_example)
       = start_world0\<lparr>op_lock_held := False, cleanup := [D_opDone]\<rparr>
   \<and> fst (start (start_env_example (\<lambda>c. c \<noteq> C_Wait) False) start_devices_example)
       = Some C_Wait
   \<and> \<not> Wait_leaves_qemu (start_env_example (\<lambda>c. c \<noteq> C_Wait) False)
   \<and> status_after_start (\<lambda>s. s = ''true'') (start_env_example (\<lambda>c. c \<noteq> C_Wait) False)
         (snd (start (start_env_example (\<lambda>c. c \<noteq> C_Wait) False) start_devices_example))
       = Stopped
   \<and> fst (start (start_env_example (\<lambda>c. True) True) start_devices_example) = Some C_pid
   \<and> pid_leaves_qemu (start_env_example (\<lambda>c. True) True)
   \<and> status_after_start (\<lambda>s. s = ''true'') (start_env_example (\<lambda>c. True) True)
         (snd (start (start_env_example (\<lambda>c. True) True) start_devices_example))
       = Running
   \<and> R_unmount \<in> set (cleanup (snd (start (start_env_example (\<lambda>c. True) True)
              start_devices_example)))
   \<and> volatile_written (snd (start (start_env_example (\<lambda>c. True) True) start_devices_example))
   \<and> fst (start (start_env_example (\<lambda>c. c \<noteq> C_runHooks) False) start_devices_example)
       = Some C_runHooks
   \<and> C_runHooks \<in> set (calls_of start_finish)
   \<and> R_Stop \<in> set (cleanup (snd (start (start_env_example (\<lambda>c. c \<noteq> C_runHooks) False)
              start_devices_example)))"
proof -
  let ?isTrue = "\<lambda>s. s = ''true''"
  let ?e1 = "start_env_example (\<lambda>c. c \<noteq> C_Reset) False"
  let ?w1 = "\<lparr>config_mounted = False, started_devices = [], config_drive_path = False,
         qemu_running = False, volatile_written = True, op_lock_held = False,
         cleanup =
           [D_closeFiles, R_killQemuProcess, R_configDriveMountPathClear,
            R_deviceStop ''root'', R_runConf_Revert ''eth0'',
            R_deviceStop ''eth0'', R_unmount, D_opDone]\<rparr>"
  let ?e2 = "start_env_example (\<lambda>c. c \<noteq> C_deviceStart ''root'') False"
  let ?e3 = "start_env_example (\<lambda>c. c \<noteq> C_mount) False"
  let ?e4 = "start_env_example (\<lambda>c. c \<noteq> C_Wait) False"
  let ?e5 = "start_env_example (\<lambda>c. True) True"
  let ?e6 = "start_env_example (\<lambda>c. c \<noteq> C_runHooks) False"
  have fails: "\<exists>w. start e start_devices_example = (Some c, w)"
    if "fst (start e start_devices_example) = Some c" for e c
    using that by (cases "start e start_devices_example") auto
  have r1: "start ?e1 start_devices_example = (Some C_Reset, ?w1)"
    unfolding start_env_example_def start_devices_example_def by code_simp
  have c1: "C_Reset \<in> set (calls_of start_monitor)"
    by (simp add: start_monitor_def)
  have k1: "kill_ok ?e1" by (simp add: start_env_example_def)
  from start_revert [of ?e1 start_devices_example C_Reset ?w1 ?isTrue] r1 c1 k1
  have s1: "status_after_start ?isTrue ?e1 ?w1 = Stopped" by blast
  have "fst (start ?e2 start_devices_example) = Some (C_deviceStart ''root'')"
    unfolding start_env_example_def start_devices_example_def by code_simp
  then obtain w2 where r2: "start ?e2 start_devices_example = (Some (C_deviceStart ''root''), w2)"
    using fails by blast
  have c2: "C_deviceStart ''root'' \<in> set (calls_of (start_until_spawn start_devices_example))"
    unfolding start_devices_example_def start_until_spawn_def start_prepare_def
      start_config_drive_def start_configure_def
    by code_simp
  from start_revert [of ?e2 start_devices_example "C_deviceStart ''root''" w2 ?isTrue] r2 c2
  have u2: "R_unmount \<in> set (cleanup w2)" and q2: "\<not> qemu_running w2" by blast+
  have "fst (start ?e3 start_devices_example) = Some C_mount"
    unfolding start_env_example_def start_devices_example_def by code_simp
  then obtain w3 where r3: "start ?e3 start_devices_example = (Some C_mount, w3)"
    using fails by blast
  have c3: "C_mount \<in> set (calls_of start_begin)" by (simp add: start_begin_def)
  from start_revert [of ?e3 start_devices_example C_mount w3 ?isTrue] r3 c3
  have w3: "w3 = start_world0\<lparr>op_lock_held := False, cleanup := [D_opDone]\<rparr>" by blast
  have "fst (start ?e4 start_devices_example) = Some C_Wait"
    unfolding start_env_example_def start_devices_example_def by code_simp
  then obtain w4 where r4: "start ?e4 start_devices_example = (Some C_Wait, w4)"
    using fails by blast
  have l4: "\<not> Wait_leaves_qemu ?e4" by (simp add: start_env_example_def)
  from start_revert [of ?e4 start_devices_example C_Wait w4 ?isTrue] r4 l4
  have s4: "status_after_start ?isTrue ?e4 w4 = Stopped" by blast
  have "fst (start ?e5 start_devices_example) = Some C_pid"
    unfolding start_env_example_def start_devices_example_def by code_simp
  then obtain w5 where r5: "start ?e5 start_devices_example = (Some C_pid, w5)"
    using fails by blast
  have c5: "C_pid \<notin> set (calls_of start_begin) \<and> C_pid \<notin> set (calls_of start_prepare)"
    by (simp add: start_begin_def start_prepare_def)
  have l5: "pid_leaves_qemu ?e5" by (simp add: start_env_example_def)
  from start_revert [of ?e5 start_devices_example C_pid w5 ?isTrue] r5 c5 l5
  have u5: "R_unmount \<in> set (cleanup w5)" and v5: "volatile_written w5"
    and s5: "status_after_start ?isTrue ?e5 w5 = Running" by blast+
  have "fst (start ?e6 start_devices_example) = Some C_runHooks"
    unfolding start_env_example_def start_devices_example_def by code_simp
  then obtain w6 where r6: "start ?e6 start_devices_example = (Some C_runHooks, w6)"
    using fails by blast
  have c6: "C_runHooks \<in> set (calls_of start_finish)" by (simp add: start_finish_def)
  from start_revert [of ?e6 start_devices_example C_runHooks w6 ?isTrue] r6 c6
  have s6: "R_Stop \<in> set (cleanup w6)" by blast
  from r1 c1 k1 s1 r2 c2 u2 q2 r3 c3 w3 r4 l4 s4 r5 l5 s5 u5 v5 r6 c6 s6 show ?thesis by simp
qed

text \<open>
  C1 as stated covers a failure at any step. When \<^verbatim>\<open>d.pid()\<close> returns an error
  after the launch while the QEMU process is there, start returns before it has
  registered killQemuProcess: the reverter unmounts the config volume and stops the
  devices, the QEMU process stays, and the instance reports Running. The volatile keys
  written before the failure stay written as well.
\<close>

theorem start_pid_failure_counterexample:
  "start (start_env_example (\<lambda>c. True) True) start_devices_example
     = (Some C_pid,
        \<lparr>config_mounted = False, started_devices = [], config_drive_path = False,
         qemu_running = True, volatile_written = True, op_lock_held = False,
         cleanup =
           [D_closeFiles, R_configDriveMountPathClear, R_deviceStop ''root'',
            R_runConf_Revert ''eth0'', R_deviceStop ''eth0'', R_unmount, D_opDone]\<rparr>)
   \<and> kill_ok (start_env_example (\<lambda>c. True) True)
   \<and> pid_error (start_env_example (\<lambda>c. True) True)
   \<and> status_after_start (\<lambda>s. s = ''true'') (start_env_example (\<lambda>c. True) True)
         (snd (start (start_env_example (\<lambda>c. True) True) start_devices_example))
       = Running"
proof -
  have r: "start (start_env_example (\<lambda>c. True) True) start_devices_example
     = (Some C_pid,
        \<lparr>config_mounted = False, started_devices = [], config_drive_path = False,
         qemu_running = True, volatile_written = True, op_lock_held = False,
         cleanup =
           [D_closeFiles, R_configDriveMountPathClear, R_deviceStop ''root'',
            R_runConf_Revert ''eth0'', R_deviceStop ''eth0'', R_unmount, D_opDone]\<rparr>)"
    unfolding start_env_example_def start_devices_example_def by code_simp
  show ?thesis
    unfolding r
    by (simp add: start_env_example_def status_after_start_def statusCode_def)
qed

subsection \<open>Live migration: the snapshot is committed back on failure\<close>






















subsection \<open>Operation-lock inheritance matrix\<close>

text \<open>
  C3. Stop creates its operation lock with inheritable actions exactly Restart, Restore and
  Migrate; start and Update with exactly Restart and Restore; Shutdown with exactly Restart
  and with the reusable flag set; and no lock-creating function of the driver passes an
  inheritable action outside Restart, Restore, Migrate.
\<close>

theorem lock_inheritance_matrix:
  "set (inheritableActions (lock_request_of Site_Stop))
     = {ActionRestart, ActionRestore, ActionMigrate}
   \<and> set (inheritableActions (lock_request_of Site_start)) = {ActionRestart, ActionRestore}
   \<and> set (inheritableActions (lock_request_of Site_Update)) = {ActionRestart, ActionRestore}
   \<and> set (inheritableActions (lock_request_of Site_Shutdown)) = {ActionRestart}
   \<and> createReusable (lock_request_of Site_Shutdown)
   \<and> reuseExisting (lock_request_of Site_Shutdown)
   \<and> (\<forall>s. set (inheritableActions (lock_request_of s))
            \<union> {ActionRestart, ActionRestore, ActionMigrate}
          = {ActionRestart, ActionRestore, ActionMigrate})"
proof -
  have all_sites: "set (inheritableActions (lock_request_of s))
            \<union> {ActionRestart, ActionRestore, ActionMigrate}
          = {ActionRestart, ActionRestore, ActionMigrate}" for s
    by (cases s) auto
  show ?thesis
    using all_sites by simp
qed

subsection \<open>The machine definition\<close>

text \<open>
  C4, as the code has it. A start asked to restore state passes the recorded
  \<^verbatim>\<open>volatile.vm.definition\<close> to the generation of the QEMU configuration; when there
  is state to restore it leaves the local configuration as it is, and when there is none
  it goes on as a start that does not restore state. A start not asked to restore state
  passes the empty definition. Every start that does not restore state then records the
  definition that QEMU reports: it stores it under \<^verbatim>\<open>volatile.vm.definition\<close>, or
  removes the key when QEMU reports the empty string, and changes no other key; reading
  the key afterwards gives what QEMU reported.
\<close>

theorem start_definition_recorded_and_reused:
  "fst (start_definition True d_stateful definition localConfig)
     = config_get localConfig ''volatile.vm.definition''
   \<and> snd (start_definition True True definition localConfig) = localConfig
   \<and> fst (start_definition False d_stateful definition localConfig) = ''''
   \<and> snd (start_definition False d_stateful definition localConfig)
       = localConfig(''volatile.vm.definition'' :=
           (if definition = '''' then None else Some definition))
   \<and> snd (start_definition True False definition localConfig)
       = localConfig(''volatile.vm.definition'' :=
           (if definition = '''' then None else Some definition))
   \<and> config_get (snd (start_definition False d_stateful definition localConfig))
         ''volatile.vm.definition'' = definition
   \<and> config_get (snd (start_definition True False definition localConfig))
         ''volatile.vm.definition'' = definition"
  by (simp add: start_definition_def start_machineDefinition_def start_stateful_def
        start_record_definition_def config_get_def)

text \<open>
  C4 as stated has every later start reuse the recorded definition. A start that is not
  asked to restore state, of an instance that recorded pc-q35-8.2, passes the empty
  definition and then records what the QEMU now installed reports.
\<close>

theorem start_definition_stateless_counterexample:
  "config_get config_example ''volatile.vm.definition'' = ''pc-q35-8.2''
   \<and> fst (start_definition False False ''pc-q35-9.0'' config_example) = ''''
   \<and> fst (start_definition False False ''pc-q35-9.0'' config_example) \<noteq> ''pc-q35-8.2''
   \<and> config_get (snd (start_definition False False ''pc-q35-9.0'' config_example))
         ''volatile.vm.definition'' = ''pc-q35-9.0''"
  by (simp add: start_definition_def start_machineDefinition_def start_stateful_def
        start_record_definition_def config_example_def config_get_def)

subsection \<open>Vsock context ID: reserved IDs and determinism\<close>

lemma reservedVsockID_iff: "reservedVsockID v \<longleftrightarrow> v = 0 \<or> v = 1 \<or> v = 2"
proof -
  have le: "v \<le> 2 \<longleftrightarrow> unat v \<le> 2" by (simp add: word_le_nat_alt)
  have z: "v = 0 \<longleftrightarrow> unat v = 0" by (simp add: unat_eq_0)
  have o: "v = 1 \<longleftrightarrow> unat v = 1" by (simp add: word_unat_eq_iff)
  have t: "v = 2 \<longleftrightarrow> unat v = 2" by (simp add: word_unat_eq_iff)
  show ?thesis unfolding reservedVsockID_def le z o t by arith
qed

lemma nextVsockID_loop_not_reserved:
  "nextVsockID_loop ok io r n i = Inr (v, f) \<Longrightarrow> \<not> reservedVsockID v"
  by (induction n arbitrary: i)
     (auto simp: Let_def split: if_splits sum.splits option.splits)

lemma acquireExistingVsockID_not_reserved:
  "acquireExistingVsockID lib e = (v, Some f, x) \<Longrightarrow> \<not> reservedVsockID v"
  by (auto simp: acquireExistingVsockID_def getVsockID_def
           split: sum.splits option.splits if_splits)

lemma nextVsockID_new_not_reserved:
  "nextVsockID_new lib e = Inr (v, f) \<Longrightarrow> \<not> reservedVsockID v"
  by (auto simp: nextVsockID_new_def split: option.splits
           dest: nextVsockID_loop_not_reserved)

lemma nextVsockID_not_reserved:
  assumes "nextVsockID lib e = Inr (v, f)"
  shows "\<not> reservedVsockID v"
proof -
  obtain a b c where ex: "acquireExistingVsockID lib e = (a, b, c)"
    by (cases "acquireExistingVsockID lib e") auto
  show ?thesis
  proof (cases b)
    case None
    with assms ex show ?thesis
      by (simp add: nextVsockID_def nextVsockID_new_not_reserved)
  next
    case (Some g)
    show ?thesis
    proof (cases "a = 0")
      case True
      with assms ex Some show ?thesis
        by (simp add: nextVsockID_def nextVsockID_new_not_reserved)
    next
      case False
      with assms ex Some have "v = a" by (simp add: nextVsockID_def)
      with ex Some show ?thesis
        using acquireExistingVsockID_not_reserved by blast
    qed
  qed
qed

lemma nextVsockID_loop_opened:
  "nextVsockID_loop ok io r n i = Inr x \<Longrightarrow> ok"
  by (induction n arbitrary: i)
     (auto simp: Let_def acquireVsockID_def split: if_splits sum.splits option.splits)

text \<open>The loop's answer does not depend on how many iterations the timeout leaves it.\<close>

lemma nextVsockID_loop_deterministic:
  "nextVsockID_loop ok io r n i = Inr x \<Longrightarrow> nextVsockID_loop ok io r m i = Inr y \<Longrightarrow> x = y"
proof (induction n arbitrary: m i)
  case 0
  then show ?case by simp
next
  case (Suc n)
  then obtain m' where m: "m = Suc m'" by (cases m) auto
  show ?case
    using Suc.prems Suc.IH[of "Suc i" m'] unfolding m
    by (auto simp: Let_def split: if_splits sum.splits option.splits)
qed

lemma nextVsockID_not_reacquired:
  "\<not> reacquired lib e \<Longrightarrow> nextVsockID lib e = nextVsockID_new lib e"
  by (auto simp: reacquired_def nextVsockID_def split: prod.splits option.splits)

lemma nextVsockID_new_deterministic:
  assumes "vsock_uuid e1 = vsock_uuid e2" and "set_guest_cid e1 = set_guest_cid e2"
    and "nextVsockID_new lib e1 = Inr x" and "nextVsockID_new lib e2 = Inr y"
  shows "x = y"
proof -
  from assms(3) obtain u r where u: "uuid_Parse lib (vsock_uuid e1) = Some u"
    and r: "GetStableRandomGenerator lib u = Some r"
    and l1: "nextVsockID_loop (open_vhost_ok e1) (set_guest_cid e1) r (ticks e1) 0 = Inr x"
    by (auto simp: nextVsockID_new_def split: option.splits)
  from assms(4) u r assms(1)
  have l2: "nextVsockID_loop (open_vhost_ok e2) (set_guest_cid e2) r (ticks e2) 0 = Inr y"
    by (auto simp: nextVsockID_new_def split: option.splits)
  have o1: "open_vhost_ok e1" using l1 by (rule nextVsockID_loop_opened)
  have o2: "open_vhost_ok e2" using l2 by (rule nextVsockID_loop_opened)
  have l1': "nextVsockID_loop True (set_guest_cid e1) r (ticks e1) 0 = Inr x"
    using l1 o1 by simp
  have l2': "nextVsockID_loop True (set_guest_cid e1) r (ticks e2) 0 = Inr y"
    using l2 o2 assms(2) by simp
  show ?thesis using l1' l2' by (rule nextVsockID_loop_deterministic)
qed

text \<open>
  C5. A context ID that nextVsockID returns is never 0, 1 or 2. When the stored ID cannot
  be taken again, the candidates come from the generator seeded with
  \<^verbatim>\<open>volatile.uuid\<close> alone: two runs with the same UUID against the same set of IDs in
  use, whatever their stored \<^verbatim>\<open>volatile.vsock_id\<close> and however long their timeouts
  last, acquire the same context ID when both acquire one.
\<close>

theorem nextVsockID_reserved_and_deterministic:
  "(nextVsockID lib e = Inr (v, f) \<longrightarrow> v \<noteq> 0 \<and> v \<noteq> 1 \<and> v \<noteq> 2)
   \<and> (\<not> reacquired lib e1 \<and> \<not> reacquired lib e2
       \<and> vsock_uuid e1 = vsock_uuid e2 \<and> set_guest_cid e1 = set_guest_cid e2
       \<and> nextVsockID lib e1 = Inr (v1, f1) \<and> nextVsockID lib e2 = Inr (v2, f2)
      \<longrightarrow> v1 = v2 \<and> f1 = f2)"
proof (intro conjI impI)
  assume "nextVsockID lib e = Inr (v, f)"
  then have "\<not> reservedVsockID v" by (rule nextVsockID_not_reserved)
  then show "v \<noteq> 0" "v \<noteq> 1" "v \<noteq> 2"
    by (simp_all add: reservedVsockID_iff)
next
  assume h: "\<not> reacquired lib e1 \<and> \<not> reacquired lib e2
       \<and> vsock_uuid e1 = vsock_uuid e2 \<and> set_guest_cid e1 = set_guest_cid e2
       \<and> nextVsockID lib e1 = Inr (v1, f1) \<and> nextVsockID lib e2 = Inr (v2, f2)"
  then have "nextVsockID_new lib e1 = Inr (v1, f1)" "nextVsockID_new lib e2 = Inr (v2, f2)"
    using nextVsockID_not_reacquired by metis+
  with h have "(v1, f1) = (v2, f2)"
    using nextVsockID_new_deterministic by blast
  then show "v1 = v2" "f1 = f2" by simp_all
qed

theorem nextVsockID_reserved_and_deterministic_witness:
  "nextVsockID vsock_lib_example (vsock_env_example None 5) = Inr (6, VhostVsockFile 6)
   \<and> nextVsockID vsock_lib_example (vsock_env_example (Some ''7'') 9) = Inr (6, VhostVsockFile 6)
   \<and> \<not> reacquired vsock_lib_example (vsock_env_example None 5)
   \<and> \<not> reacquired vsock_lib_example (vsock_env_example (Some ''7'') 9)
   \<and> (6 :: uint32) \<noteq> 0 \<and> (6 :: uint32) \<noteq> 1 \<and> (6 :: uint32) \<noteq> 2"
proof -
  have r1: "nextVsockID vsock_lib_example (vsock_env_example None 5) = Inr (6, VhostVsockFile 6)"
    unfolding vsock_lib_example_def vsock_env_example_def by code_simp
  have r2: "nextVsockID vsock_lib_example (vsock_env_example (Some ''7'') 9)
              = Inr (6, VhostVsockFile 6)"
    unfolding vsock_lib_example_def vsock_env_example_def by code_simp
  have n1: "\<not> reacquired vsock_lib_example (vsock_env_example None 5)"
    unfolding vsock_lib_example_def vsock_env_example_def by code_simp
  have n2: "\<not> reacquired vsock_lib_example (vsock_env_example (Some ''7'') 9)"
    unfolding vsock_lib_example_def vsock_env_example_def by code_simp
  have same: "vsock_uuid (vsock_env_example None 5) = vsock_uuid (vsock_env_example (Some ''7'') 9)"
    "set_guest_cid (vsock_env_example None 5) = set_guest_cid (vsock_env_example (Some ''7'') 9)"
    by (simp_all add: vsock_env_example_def)
  from nextVsockID_reserved_and_deterministic
         [of vsock_lib_example "vsock_env_example None 5" 6 "VhostVsockFile 6"
             "vsock_env_example None 5" "vsock_env_example (Some ''7'') 9"
             6 "VhostVsockFile 6" 6 "VhostVsockFile 6"]
       r1 r2 n1 n2 same
  show ?thesis by blast
qed

subsection \<open>PID-reuse protection\<close>

lemma take_eq_iff_prefix: "take (length sub) s = sub \<longleftrightarrow> (\<exists>ss. s = sub @ ss)"
  by (metis append_eq_conv_conj append_take_drop_id)

lemma bytes_Contains_iff: "bytes_Contains s sub \<longleftrightarrow> (\<exists>ps ss. s = ps @ sub @ ss)"
proof (induction s)
  case Nil
  then show ?case by auto
next
  case (Cons c cs)
  have "(\<exists>ps ss. c # cs = ps @ sub @ ss) \<longleftrightarrow>
        (\<exists>ss. c # cs = sub @ ss) \<or> (\<exists>ps ss. cs = ps @ sub @ ss)"
    (is "?L \<longleftrightarrow> ?P \<or> ?Q")
  proof
    assume ?L
    then obtain ps ss where eq: "c # cs = ps @ sub @ ss" by blast
    show "?P \<or> ?Q"
    proof (cases ps)
      case Nil
      with eq show ?thesis by auto
    next
      case (Cons p ps')
      with eq have "cs = ps' @ sub @ ss" by simp
      then show ?thesis by blast
    qed
  next
    assume "?P \<or> ?Q"
    then show ?L
    proof
      assume ?P
      then obtain ss where "c # cs = [] @ sub @ ss" by auto
      then show ?L by blast
    next
      assume ?Q
      then obtain ps ss where "cs = ps @ sub @ ss" by blast
      then have "c # cs = (c # ps) @ sub @ ss" by simp
      then show ?L by blast
    qed
  qed
  with Cons.IH show ?case
    by (simp only: bytes_Contains.simps take_eq_iff_prefix)
qed

text \<open>
  C6. pid returns a positive process ID only when the PID file was read and parsed and the
  command line of that process contains both \<^verbatim>\<open>qemu-system\<close> and the instance's
  \<^verbatim>\<open>volatile.uuid\<close>, and then with no error; when the command line lacks either of the
  two it returns an error; when the PID file does not exist, or the command line of the
  process cannot be read, it returns 0 and no error.
\<close>

theorem pid_reuse_protection:
  "(0 < fst (pid e) \<longrightarrow>
      (\<exists>pidStr cmdLine. pid_file e = Inr pidStr
         \<and> atoi_trim e pidStr = Some (fst (pid e))
         \<and> proc_cmdline e (fst (pid e)) = Some cmdLine
         \<and> bytes_Contains cmdLine ''qemu-system''
         \<and> bytes_Contains cmdLine (volatile_uuid e))
      \<and> snd (pid e) = None)
   \<and> (pid_file e = Inr pidStr \<and> atoi_trim e pidStr = Some p \<and> proc_cmdline e p = Some cmdLine
        \<and> \<not> (bytes_Contains cmdLine ''qemu-system'' \<and> bytes_Contains cmdLine (volatile_uuid e))
      \<longrightarrow> pid e = (- 1, Some Err_PidMismatch))
   \<and> (pid_file e = Inl ErrNotExist \<longrightarrow> pid e = (0, None))
   \<and> (pid_file e = Inr pidStr \<and> atoi_trim e pidStr = Some p \<and> proc_cmdline e p = None
      \<longrightarrow> pid e = (0, None))"
  by (auto simp: pid_def split: sum.splits read_err.splits option.splits if_splits)

theorem pid_reuse_protection_witness:
  "pid (pid_env_example (Inr ''4242'') (Some ''/usr/bin/qemu-system-x86_64 -uuid ab-12 -S''))
     = (4242, None)
   \<and> pid (pid_env_example (Inr ''4242'') (Some ''/usr/bin/qemu-system-x86_64 -uuid ab-13 -S''))
     = (- 1, Some Err_PidMismatch)
   \<and> pid (pid_env_example (Inr ''4242'') (Some ''/usr/bin/sleep ab-12''))
     = (- 1, Some Err_PidMismatch)
   \<and> pid (pid_env_example (Inl ErrNotExist) None) = (0, None)
   \<and> pid (pid_env_example (Inr ''4242'') None) = (0, None)"
proof -
  let ?good = "pid_env_example (Inr ''4242'') (Some ''/usr/bin/qemu-system-x86_64 -uuid ab-12 -S'')"
  let ?other = "pid_env_example (Inr ''4242'') (Some ''/usr/bin/qemu-system-x86_64 -uuid ab-13 -S'')"
  let ?sleep = "pid_env_example (Inr ''4242'') (Some ''/usr/bin/sleep ab-12'')"
  have good: "pid ?good = (4242, None)"
    by (simp add: pid_def pid_env_example_def)
  have c1: "\<not> bytes_Contains ''/usr/bin/qemu-system-x86_64 -uuid ab-13 -S'' ''ab-12''"
    by simp
  have c2: "\<not> bytes_Contains ''/usr/bin/sleep ab-12'' ''qemu-system''"
    by simp
  from pid_reuse_protection [of ?good] good
  have w1: "pid ?good = (4242, None)" by simp
  from pid_reuse_protection
         [of ?other "''4242''" 4242 "''/usr/bin/qemu-system-x86_64 -uuid ab-13 -S''"] c1
  have w2: "pid ?other = (- 1, Some Err_PidMismatch)"
    by (simp add: pid_env_example_def)
  from pid_reuse_protection [of ?sleep "''4242''" 4242 "''/usr/bin/sleep ab-12''"] c2
  have w3: "pid ?sleep = (- 1, Some Err_PidMismatch)"
    by (simp add: pid_env_example_def)
  from pid_reuse_protection [of "pid_env_example (Inl ErrNotExist) None"]
  have w4: "pid (pid_env_example (Inl ErrNotExist) None) = (0, None)"
    by (simp add: pid_env_example_def)
  from pid_reuse_protection [of "pid_env_example (Inr ''4242'') None" "''4242''" 4242]
  have w5: "pid (pid_env_example (Inr ''4242'') None) = (0, None)"
    by (simp add: pid_env_example_def)
  from w1 w2 w3 w4 w5 show ?thesis by blast
qed

subsection \<open>Block-device detach\<close>

lemma detach_loop_locked_aux:
  assumes ret: "detach_loop e w i now log = Some y"
  shows "\<not> (\<forall>j\<ge>i. remove_blockdev e j = QmpLocked)"
proof (rule detach_loop.raw_induct
              [where P = "\<lambda>e w i now log y. \<not> (\<forall>j\<ge>i. remove_blockdev e j = QmpLocked)",
               OF _ ret])
  fix f :: "detach_env \<Rightarrow> nat \<Rightarrow> nat \<Rightarrow> nat \<Rightarrow> detach_event list
               \<Rightarrow> (detach_err option \<times> nat \<times> detach_event list) option"
    and e :: detach_env and w i now :: nat and log :: "detach_event list"
    and y :: "detach_err option \<times> nat \<times> detach_event list"
  assume IH: "\<And>e w i now log y. f e w i now log = Some y \<Longrightarrow> \<not> (\<forall>j\<ge>i. remove_blockdev e j = QmpLocked)"
  assume step: "(let now' = now + call_ms e i; log' = log @ [Ev_RemoveBlockDevice] in
      case remove_blockdev e i of
        QmpOk \<Rightarrow> Some (None, now', log')
      | QmpLocked \<Rightarrow> f e w (Suc i) (now' + 2000) (log' @ [Ev_Sleep 2000])
      | QmpError \<Rightarrow>
          if now' > w then Some (Some Err_DetachTimeout, now', log')
          else f e w (Suc i) now' log') = Some y"
  show "\<not> (\<forall>j\<ge>i. remove_blockdev e j = QmpLocked)"
  proof
    assume all: "\<forall>j\<ge>i. remove_blockdev e j = QmpLocked"
    then have li: "remove_blockdev e i = QmpLocked" by simp
    from all have ls: "\<forall>j\<ge>Suc i. remove_blockdev e j = QmpLocked" by simp
    from step li have "f e w (Suc i) (now + call_ms e i + 2000) (log @ [Ev_RemoveBlockDevice] @ [Ev_Sleep 2000]) = Some y"
      by (simp add: Let_def)
    from IH[OF this] ls show False by blast
  qed
qed

lemma detach_loop_locked:
  "\<forall>j\<ge>i. remove_blockdev e j = QmpLocked \<Longrightarrow> detach_loop e w i now log = None"
  using detach_loop_locked_aux [of e w i now log] by (cases "detach_loop e w i now log") auto

text \<open>
  C7. The claim is that the retry loop of deviceDetachBlockDevice ends within its
  ten-second bound. Against a monitor that keeps answering \<^verbatim>\<open>blockdev-del\<close> with
  423 Locked, the loop sleeps two seconds and goes round again without ever reading
  the clock: the function does not return.
\<close>

theorem deviceDetachBlockDevice_locked_never_returns:
  "deviceDetachBlockDevice locked_env now = None"
  by (simp add: deviceDetachBlockDevice_def locked_env_def detach_loop_locked)

subsection \<open>CPU hotplug\<close>

lemma device_adds_append: "device_adds (xs @ ys) = device_adds xs @ device_adds ys"
  by (induction xs rule: device_adds.induct) simp_all

lemma device_dels_append: "device_dels (xs @ ys) = device_dels xs @ device_dels ys"
  by (induction xs rule: device_dels.induct) simp_all

lemma device_adds_map_add: "device_adds (map (\<lambda>c. Cpu_AddDevice (f c)) cs) = map f cs"
  by (induction cs) simp_all

lemma device_dels_map_add: "device_dels (map (\<lambda>c. Cpu_AddDevice (f c)) cs) = []"
  by (induction cs) simp_all

lemma device_dels_map_del: "device_dels (map (\<lambda>c. Cpu_RemoveDevice (f c)) cs) = map f cs"
  by (induction cs) simp_all

lemma device_adds_map_del: "device_adds (map (\<lambda>c. Cpu_RemoveDevice (f c)) cs) = []"
  by (induction cs) simp_all

lemma add_cpus_ok:
  "add_cpus e cs rv log = (None, log')
   \<Longrightarrow> log' = log @ map (\<lambda>c. Cpu_AddDevice (cpu_qemuDev (arch_s390x e) c)) cs"
proof (induction cs arbitrary: rv log)
  case Nil
  then show ?case by simp
next
  case (Cons c cs)
  from Cons.prems have ok: "add_device_ok e (cpu_devID c)"
    by (simp split: if_splits)
  with Cons.prems have "add_cpus e cs (Cpu_RemoveDevice (cpu_devID c) # rv)
             (log @ [Cpu_AddDevice (cpu_qemuDev (arch_s390x e) c)]) = (None, log')"
    by simp
  from Cons.IH [OF this] show ?case by simp
qed

lemma add_cpus_err: "add_cpus e cs rv log = (Some err, log') \<Longrightarrow> err = CErr_AddDevice"
  by (induction cs arbitrary: rv log) (auto split: if_splits)

lemma remove_cpus_ok:
  "remove_cpus e cs rv log = (None, log')
   \<Longrightarrow> log' = log @ map (\<lambda>c. Cpu_RemoveDevice (qom_devID c)) cs"
proof (induction cs arbitrary: rv log)
  case Nil
  then show ?case by simp
next
  case (Cons c cs)
  from Cons.prems have ok: "remove_device_ok e (qom_devID c)"
    by (simp split: if_splits)
  with Cons.prems have "remove_cpus e cs (Cpu_AddDevice (cpu_readd_dev c) # rv)
             (log @ [Cpu_RemoveDevice (qom_devID c)]) = (None, log')"
    by simp
  from Cons.IH [OF this] show ?case by simp
qed

lemma remove_cpus_err: "remove_cpus e cs rv log = (Some err, log') \<Longrightarrow> err = CErr_RemoveCPU"
  by (induction cs arbitrary: rv log) (auto split: if_splits)

lemma setCPUs_same:
  assumes "hotpluggable_cpus e = Some cpus" and "monitor_given e \<or> cpu_qmp_connects e"
    and "count = totalReservedCPUs cpus"
  shows "setCPUs e count = (None, cpu_log1 e)"
proof -
  have "count \<noteq> 0" using assms(3) by (simp add: totalReservedCPUs_def)
  then show ?thesis using assms by (auto simp: setCPUs_def Let_def cpu_log1_def)
qed

lemma setCPUs_increase_unfold:
  assumes "hotpluggable_cpus e = Some cpus" and "monitor_given e \<or> cpu_qmp_connects e"
    and "count > totalReservedCPUs cpus"
  shows "setCPUs e count =
    (if count > int (length cpus) then (Some CErr_MoreThanAvailable, cpu_log1 e)
     else if count - totalReservedCPUs cpus > int (length (availableCPUs cpus))
       then (Some CErr_NotEnoughToAdd, cpu_log1 e)
     else (case add_cpus e (take (nat (count - totalReservedCPUs cpus)) (availableCPUs cpus))
                  [] (cpu_log1 e) of
             (Some err, log) \<Rightarrow> (Some err, log)
           | (None, log) \<Rightarrow> post_hotplug e log))"
proof -
  have "count \<noteq> 0" using assms(3) by (simp add: totalReservedCPUs_def)
  then show ?thesis using assms by (auto simp: setCPUs_def Let_def cpu_log1_def)
qed

lemma setCPUs_decrease_unfold:
  assumes "hotpluggable_cpus e = Some cpus" and "monitor_given e \<or> cpu_qmp_connects e"
    and "count < totalReservedCPUs cpus" and "count \<noteq> 0"
  shows "setCPUs e count =
    (if totalReservedCPUs cpus - count > int (length (hotpluggedCPUs cpus))
       then (Some CErr_NotEnoughToRemove, cpu_log1 e)
     else (case remove_cpus e (take (nat (totalReservedCPUs cpus - count)) (hotpluggedCPUs cpus))
                  [] (cpu_log1 e) of
             (Some err, log) \<Rightarrow> (Some err, log)
           | (None, log) \<Rightarrow> post_hotplug e (log @ [Cpu_Sleep 1000])))"
  using assms by (auto simp: setCPUs_def Let_def cpu_log1_def)

lemma setCPUs_increase:
  assumes q: "hotpluggable_cpus e = Some cpus"
    and conn: "monitor_given e \<or> cpu_qmp_connects e"
    and gt: "count > totalReservedCPUs cpus"
    and ok: "fst (setCPUs e count) = None \<or> fst (setCPUs e count) = Some CErr_PostHotplug"
  shows "snd (setCPUs e count)
           = cpu_log1 e
             @ map (\<lambda>c. Cpu_AddDevice (cpu_qemuDev (arch_s390x e) c))
                 (take (nat (count - totalReservedCPUs cpus)) (availableCPUs cpus))
             @ [Cpu_postCPUHotplug]
         \<and> nat (count - totalReservedCPUs cpus) \<le> length (availableCPUs cpus)"
proof -
  let ?cs = "take (nat (count - totalReservedCPUs cpus)) (availableCPUs cpus)"
  note unf = setCPUs_increase_unfold [OF q conn gt]
  obtain r l where al: "add_cpus e ?cs [] (cpu_log1 e) = (r, l)"
    by (cases "add_cpus e ?cs [] (cpu_log1 e)") auto
  have g1: "\<not> count > int (length cpus)"
    using ok unf by (auto split: if_splits)
  have g2: "\<not> count - totalReservedCPUs cpus > int (length (availableCPUs cpus))"
    using ok unf g1 by (auto split: if_splits)
  have eq: "setCPUs e count = (case r of Some err \<Rightarrow> (Some err, l) | None \<Rightarrow> post_hotplug e l)"
    using unf g1 g2 al by (simp split: option.splits)
  have rn: "r = None"
  proof (cases r)
    case None then show ?thesis .
  next
    case (Some err)
    with al have "err = CErr_AddDevice" using add_cpus_err by blast
    with eq Some ok show ?thesis by simp
  qed
  with al have l: "l = cpu_log1 e @ map (\<lambda>c. Cpu_AddDevice (cpu_qemuDev (arch_s390x e) c)) ?cs"
    using add_cpus_ok by blast
  from eq rn l g2 show ?thesis by (simp add: post_hotplug_def)
qed

lemma setCPUs_decrease:
  assumes q: "hotpluggable_cpus e = Some cpus"
    and conn: "monitor_given e \<or> cpu_qmp_connects e"
    and nz: "count \<noteq> 0"
    and lt: "count < totalReservedCPUs cpus"
    and ok: "fst (setCPUs e count) = None \<or> fst (setCPUs e count) = Some CErr_PostHotplug"
  shows "snd (setCPUs e count)
           = cpu_log1 e
             @ map (\<lambda>c. Cpu_RemoveDevice (qom_devID c))
                 (take (nat (totalReservedCPUs cpus - count)) (hotpluggedCPUs cpus))
             @ [Cpu_Sleep 1000, Cpu_postCPUHotplug]
         \<and> nat (totalReservedCPUs cpus - count) \<le> length (hotpluggedCPUs cpus)"
proof -
  let ?cs = "take (nat (totalReservedCPUs cpus - count)) (hotpluggedCPUs cpus)"
  note unf = setCPUs_decrease_unfold [OF q conn lt nz]
  obtain r l where al: "remove_cpus e ?cs [] (cpu_log1 e) = (r, l)"
    by (cases "remove_cpus e ?cs [] (cpu_log1 e)") auto
  have g: "\<not> totalReservedCPUs cpus - count > int (length (hotpluggedCPUs cpus))"
    using ok unf by (auto split: if_splits)
  have eq: "setCPUs e count
              = (case r of Some err \<Rightarrow> (Some err, l) | None \<Rightarrow> post_hotplug e (l @ [Cpu_Sleep 1000]))"
    using unf g al by (simp split: option.splits)
  have rn: "r = None"
  proof (cases r)
    case None then show ?thesis .
  next
    case (Some err)
    with al have "err = CErr_RemoveCPU" using remove_cpus_err by blast
    with eq Some ok show ?thesis by simp
  qed
  with al have l: "l = cpu_log1 e @ map (\<lambda>c. Cpu_RemoveDevice (qom_devID c)) ?cs"
    using remove_cpus_ok by blast
  from eq rn l g show ?thesis by (simp add: post_hotplug_def)
qed

text \<open>
  C8, as the code has it. With the monitor reachable and the query answered: a count
  equal to the reserved CPUs (the hotplugged ones and the fixed one) issues no
  \<^verbatim>\<open>device_add\<close> and no \<^verbatim>\<open>device_del\<close> and returns no error; a larger count whose
  commands all succeed issues \<^verbatim>\<open>device_add\<close> for exactly the first count minus
  reserved of the available CPUs and no \<^verbatim>\<open>device_del\<close>; a smaller, non-zero count
  whose commands all succeed issues \<^verbatim>\<open>device_del\<close> for the first reserved minus count
  of the hotplugged CPUs, in the order in which the query lists them, then sleeps one
  second, then runs the post-hotplug tasks.
\<close>

theorem setCPUs_hotplug:
  assumes "hotpluggable_cpus e = Some cpus" and "monitor_given e \<or> cpu_qmp_connects e"
  shows
   "(count = totalReservedCPUs cpus \<longrightarrow>
       fst (setCPUs e count) = None
       \<and> device_adds (snd (setCPUs e count)) = [] \<and> device_dels (snd (setCPUs e count)) = [])
    \<and> (count > totalReservedCPUs cpus
        \<and> (fst (setCPUs e count) = None \<or> fst (setCPUs e count) = Some CErr_PostHotplug) \<longrightarrow>
       device_adds (snd (setCPUs e count))
         = map (cpu_qemuDev (arch_s390x e))
             (take (nat (count - totalReservedCPUs cpus)) (availableCPUs cpus))
       \<and> int (length (device_adds (snd (setCPUs e count)))) = count - totalReservedCPUs cpus
       \<and> device_dels (snd (setCPUs e count)) = [])
    \<and> (count \<noteq> 0 \<and> count < totalReservedCPUs cpus
        \<and> (fst (setCPUs e count) = None \<or> fst (setCPUs e count) = Some CErr_PostHotplug) \<longrightarrow>
       device_dels (snd (setCPUs e count))
         = map qom_devID (take (nat (totalReservedCPUs cpus - count)) (hotpluggedCPUs cpus))
       \<and> device_adds (snd (setCPUs e count)) = []
       \<and> (\<exists>log. snd (setCPUs e count) = log @ [Cpu_Sleep 1000, Cpu_postCPUHotplug]))"
proof (intro conjI impI)
  assume "count = totalReservedCPUs cpus"
  with assms have eq: "setCPUs e count = (None, cpu_log1 e)"
    by (rule setCPUs_same)
  show "fst (setCPUs e count) = None" by (simp add: eq)
  show "device_adds (snd (setCPUs e count)) = []" by (simp add: eq cpu_log1_def)
  show "device_dels (snd (setCPUs e count)) = []" by (simp add: eq cpu_log1_def)
next
  assume h: "count > totalReservedCPUs cpus
        \<and> (fst (setCPUs e count) = None \<or> fst (setCPUs e count) = Some CErr_PostHotplug)"
  note inc = setCPUs_increase [OF assms(1) assms(2) conjunct1 [OF h] conjunct2 [OF h]]
  show "device_adds (snd (setCPUs e count))
         = map (cpu_qemuDev (arch_s390x e))
             (take (nat (count - totalReservedCPUs cpus)) (availableCPUs cpus))"
    by (simp add: inc device_adds_append device_adds_map_add cpu_log1_def)
  then show "int (length (device_adds (snd (setCPUs e count)))) = count - totalReservedCPUs cpus"
    using inc h by simp
  show "device_dels (snd (setCPUs e count)) = []"
    by (simp add: inc device_dels_append device_dels_map_add cpu_log1_def)
next
  assume h: "count \<noteq> 0 \<and> count < totalReservedCPUs cpus
        \<and> (fst (setCPUs e count) = None \<or> fst (setCPUs e count) = Some CErr_PostHotplug)"
  then have nz: "count \<noteq> 0" and lt: "count < totalReservedCPUs cpus"
    and ok: "fst (setCPUs e count) = None \<or> fst (setCPUs e count) = Some CErr_PostHotplug"
    by simp_all
  note dec = setCPUs_decrease [OF assms(1) assms(2) nz lt ok]
  show "device_dels (snd (setCPUs e count))
         = map qom_devID (take (nat (totalReservedCPUs cpus - count)) (hotpluggedCPUs cpus))"
    by (simp add: dec device_dels_append device_dels_map_del cpu_log1_def)
  show "device_adds (snd (setCPUs e count)) = []"
    by (simp add: dec device_adds_append device_adds_map_del cpu_log1_def)
  show "\<exists>log. snd (setCPUs e count) = log @ [Cpu_Sleep 1000, Cpu_postCPUHotplug]"
    using dec by (metis append.assoc)
qed

theorem setCPUs_hotplug_witness:
  "setCPUs cpu_env_example 3 = (None, [Cpu_QueryHotpluggableCPUs])
   \<and> device_adds (snd (setCPUs cpu_env_example 4))
       = [[(''id'', QStr ''cpu030''), (''driver'', QStr ''host-x86_64-cpu''),
           (''core-id'', QInt 3), (''socket-id'', QInt 0), (''thread-id'', QInt 0)]]
   \<and> device_dels (snd (setCPUs cpu_env_example 2)) = [''cpu010'']
   \<and> snd (setCPUs cpu_env_example 2)
       = [Cpu_QueryHotpluggableCPUs, Cpu_RemoveDevice ''cpu010'']
         @ [Cpu_Sleep 1000, Cpu_postCPUHotplug]"
proof -
  let ?cpus = "[cpu_example ''/machine/unattached/device[0]'' 0,
         cpu_example ''/machine/peripheral/cpu010'' 1,
         cpu_example ''/machine/peripheral/cpu020'' 2,
         cpu_example '''' 3]"
  have q: "hotpluggable_cpus cpu_env_example = Some ?cpus"
    by (simp add: cpu_env_example_def)
  have m: "monitor_given cpu_env_example \<or> cpu_qmp_connects cpu_env_example"
    by (simp add: cpu_env_example_def)
  have t: "totalReservedCPUs ?cpus = 3"
    unfolding cpu_example_def by code_simp
  have r3: "setCPUs cpu_env_example 3 = (None, [Cpu_QueryHotpluggableCPUs])"
    unfolding cpu_env_example_def cpu_example_def by code_simp
  have r4: "setCPUs cpu_env_example 4
     = (None, [Cpu_QueryHotpluggableCPUs,
          Cpu_AddDevice [(''id'', QStr ''cpu030''), (''driver'', QStr ''host-x86_64-cpu''),
           (''core-id'', QInt 3), (''socket-id'', QInt 0), (''thread-id'', QInt 0)],
          Cpu_postCPUHotplug])"
    unfolding cpu_env_example_def cpu_example_def by code_simp
  have r2: "setCPUs cpu_env_example 2
     = (None, [Cpu_QueryHotpluggableCPUs, Cpu_RemoveDevice ''cpu010'',
               Cpu_Sleep 1000, Cpu_postCPUHotplug])"
    unfolding cpu_env_example_def cpu_example_def by code_simp
  have h3: "3 = totalReservedCPUs ?cpus" by (simp add: t)
  have h4: "4 > totalReservedCPUs ?cpus
     \<and> (fst (setCPUs cpu_env_example 4) = None
        \<or> fst (setCPUs cpu_env_example 4) = Some CErr_PostHotplug)"
    by (simp add: t r4)
  have h2: "(2 :: int) \<noteq> 0 \<and> 2 < totalReservedCPUs ?cpus
     \<and> (fst (setCPUs cpu_env_example 2) = None
        \<or> fst (setCPUs cpu_env_example 2) = Some CErr_PostHotplug)"
    by (simp add: t r2)
  from setCPUs_hotplug [OF q m, of 3] h3
  have "device_adds (snd (setCPUs cpu_env_example 3)) = []" by blast
  moreover from setCPUs_hotplug [OF q m, of 4] h4
  have "device_dels (snd (setCPUs cpu_env_example 4)) = []" by blast
  moreover from setCPUs_hotplug [OF q m, of 2] h2
  have "device_adds (snd (setCPUs cpu_env_example 2)) = []" by blast
  ultimately show ?thesis
    by (simp add: r2 r3 r4)
qed

text \<open>
  C8 as stated asks for the \<^verbatim>\<open>device_del\<close> commands in reverse order. With
  hotplugged CPUs listed as cpu010, cpu020, going down to one CPU removes cpu010 first.
\<close>

theorem setCPUs_reverse_order_counterexample:
  "device_dels (snd (setCPUs cpu_env_example 1)) = [''cpu010'', ''cpu020'']
   \<and> map qom_devID (hotpluggedCPUs (the (hotpluggable_cpus cpu_env_example))) = [''cpu010'', ''cpu020'']
   \<and> device_dels (snd (setCPUs cpu_env_example 1))
       \<noteq> rev (map qom_devID (hotpluggedCPUs (the (hotpluggable_cpus cpu_env_example))))"
proof -
  have a: "device_dels (snd (setCPUs cpu_env_example 1)) = [''cpu010'', ''cpu020'']"
    unfolding cpu_env_example_def cpu_example_def by code_simp
  have b: "map qom_devID (hotpluggedCPUs (the (hotpluggable_cpus cpu_env_example))) = [''cpu010'', ''cpu020'']"
    unfolding cpu_env_example_def cpu_example_def by code_simp
  show ?thesis unfolding a b by simp
qed


subsection \<open>Initial device configuration\<close>

lemma check_initial_keys_skip:
  "\<not> (HasPrefix k ''initial.'' \<and> initial_violation oldDev k v)
   \<Longrightarrow> check_initial_keys oldDev ((k, v) # rest) = check_initial_keys oldDev rest"
  by (auto simp: initial_violation_def split: option.splits)

lemma check_initial_keys_reject:
  "HasPrefix k ''initial.'' \<Longrightarrow> initial_violation oldDev k v
   \<Longrightarrow> check_initial_keys oldDev ((k, v) # rest) \<noteq> None"
  by (auto simp: initial_violation_def split: option.splits)

lemma check_initial_keys_rejects:
  "(k, newVal) \<in> set newDev \<Longrightarrow> HasPrefix k ''initial.''
   \<Longrightarrow> initial_violation oldDev k newVal
   \<Longrightarrow> check_initial_keys oldDev newDev \<noteq> None"
proof (induction newDev)
  case Nil
  then show ?case by simp
next
  case (Cons a newDev)
  obtain k0 v0 where a: "a = (k0, v0)" by (cases a)
  show ?case
  proof (cases "HasPrefix k0 ''initial.'' \<and> initial_violation oldDev k0 v0")
    case True
    then show ?thesis
      unfolding a using check_initial_keys_reject by blast
  next
    case False
    with Cons.prems a have "(k, newVal) \<in> set newDev" by auto
    with Cons have "check_initial_keys oldDev newDev \<noteq> None" by blast
    then show ?thesis
      unfolding a check_initial_keys_skip [OF False] .
  qed
qed

lemma check_initial_keys_sound:
  "check_initial_keys oldDev newDev = Some err
   \<Longrightarrow> \<exists>k newVal. (k, newVal) \<in> set newDev \<and> HasPrefix k ''initial.''
         \<and> initial_violation oldDev k newVal"
proof (induction newDev)
  case Nil
  then show ?case by simp
next
  case (Cons a newDev)
  obtain k0 v0 where a: "a = (k0, v0)" by (cases a)
  show ?case
  proof (cases "HasPrefix k0 ''initial.'' \<and> initial_violation oldDev k0 v0")
    case True
    then show ?thesis unfolding a by (meson list.set_intros(1))
  next
    case False
    from Cons.prems have "check_initial_keys oldDev newDev = Some err"
      unfolding a check_initial_keys_skip [OF False] .
    from Cons.IH [OF this] show ?thesis by (meson list.set_intros(2))
  qed
qed

lemma check_initial_devices_rejects:
  "(devName, newDev) \<in> set add \<Longrightarrow> (k, newVal) \<in> set newDev \<Longrightarrow> HasPrefix k ''initial.''
   \<Longrightarrow> initial_violation (map_of rm devName) k newVal
   \<Longrightarrow> check_initial_devices rm add \<noteq> None"
proof (induction add)
  case Nil
  then show ?case by simp
next
  case (Cons a add)
  obtain n dv where a: "a = (n, dv)" by (cases a)
  show ?case
  proof (cases "check_initial_keys (map_of rm n) dv")
    case (Some err)
    then show ?thesis by (simp add: a)
  next
    case None
    have "(devName, newDev) \<noteq> (n, dv)"
    proof
      assume "(devName, newDev) = (n, dv)"
      with Cons.prems have "check_initial_keys (map_of rm n) dv \<noteq> None"
        using check_initial_keys_rejects by blast
      with None show False by simp
    qed
    with Cons.prems a have "(devName, newDev) \<in> set add" by auto
    with Cons.IH Cons.prems have "check_initial_devices rm add \<noteq> None" by blast
    with None show ?thesis by (simp add: a)
  qed
qed

lemma check_initial_devices_sound:
  "check_initial_devices rm add = Some err
   \<Longrightarrow> \<exists>devName newDev k newVal. (devName, newDev) \<in> set add \<and> (k, newVal) \<in> set newDev
         \<and> HasPrefix k ''initial.'' \<and> initial_violation (map_of rm devName) k newVal"
proof (induction add)
  case Nil
  then show ?case by simp
next
  case (Cons a add)
  obtain n dv where a: "a = (n, dv)" by (cases a)
  show ?case
  proof (cases "check_initial_keys (map_of rm n) dv")
    case (Some e)
    then obtain k newVal where "(k, newVal) \<in> set dv" "HasPrefix k ''initial.''"
        "initial_violation (map_of rm n) k newVal"
      using check_initial_keys_sound by blast
    then show ?thesis unfolding a by (meson list.set_intros(1))
  next
    case None
    with Cons.prems a have "check_initial_devices rm add = Some err" by simp
    from Cons.IH [OF this] show ?thesis by (meson list.set_intros(2))
  qed
qed

text \<open>
  C9, as the code has it. When the updated keys include one prefixed \<^verbatim>\<open>initial.\<close> and
  an added device carries such a key, and the device did not exist before, or the old
  device lacked the key, or the new value is neither empty nor the old value, then Update
  returns an error and the reverter restores the instance's devices; whenever the check
  fails the devices are restored; and the check fails for no other reason.
\<close>

theorem Update_initial_immutable:
  "(devices_Update (expandedDevices d) (expandDevices args_Devices) = (rm, add, upd, keys)
      \<and> StringPrefixInSlice ''initial.'' keys
      \<and> (devName, newDev) \<in> set add \<and> (k, newVal) \<in> set newDev \<and> HasPrefix k ''initial.''
      \<and> initial_violation (map_of rm devName) k newVal
    \<longrightarrow> (\<exists>err. Update_until_initial_check expandDevices devices_Update StringPrefixInSlice
                  d args_Devices = Inl (err, d)))
   \<and> (Update_until_initial_check expandDevices devices_Update StringPrefixInSlice d args_Devices
         = Inl (e, d') \<longrightarrow> d' = d)
   \<and> (Update_initial_check StringPrefixInSlice rm add keys = Some e
      \<longrightarrow> (\<exists>devName newDev k newVal.
             (devName, newDev) \<in> set add \<and> (k, newVal) \<in> set newDev
             \<and> HasPrefix k ''initial.'' \<and> initial_violation (map_of rm devName) k newVal))"
proof (intro conjI impI)
  assume h: "devices_Update (expandedDevices d) (expandDevices args_Devices) = (rm, add, upd, keys)
      \<and> StringPrefixInSlice ''initial.'' keys
      \<and> (devName, newDev) \<in> set add \<and> (k, newVal) \<in> set newDev \<and> HasPrefix k ''initial.''
      \<and> initial_violation (map_of rm devName) k newVal"
  then have "check_initial_devices rm add \<noteq> None"
    using check_initial_devices_rejects by blast
  then obtain e where "check_initial_devices rm add = Some e" by auto
  with h have "Update_until_initial_check expandDevices devices_Update StringPrefixInSlice
                  d args_Devices = Inl (e, d)"
    by (simp add: Update_until_initial_check_def Update_initial_check_def Let_def)
  then show "\<exists>err. Update_until_initial_check expandDevices devices_Update StringPrefixInSlice
                  d args_Devices = Inl (err, d)" ..
next
  assume "Update_until_initial_check expandDevices devices_Update StringPrefixInSlice d args_Devices
         = Inl (e, d')"
  then show "d' = d"
    by (auto simp: Update_until_initial_check_def Let_def split: prod.splits option.splits)
next
  assume "Update_initial_check StringPrefixInSlice rm add keys = Some e"
  then have "check_initial_devices rm add = Some e"
    by (simp add: Update_initial_check_def split: if_splits)
  then show "\<exists>devName newDev k newVal.
             (devName, newDev) \<in> set add \<and> (k, newVal) \<in> set newDev
             \<and> HasPrefix k ''initial.'' \<and> initial_violation (map_of rm devName) k newVal"
    by (rule check_initial_devices_sound)
qed

theorem Update_initial_immutable_witness:
  "Update_until_initial_check (\<lambda>ds. ds) devices_Update_example StringPrefixInSlice_example
      instance_example (devices_example ''2000'')
     = Inl (Err_InitialModified, instance_example)
   \<and> Update_initial_check StringPrefixInSlice_example
        (devices_example ''1000'') (devices_example ''2000'') [''initial.uid'']
     = Some Err_InitialModified
   \<and> initial_violation (map_of (devices_example ''1000'') ''data'') ''initial.uid'' ''2000''"
proof -
  have r: "Update_until_initial_check (\<lambda>ds. ds) devices_Update_example StringPrefixInSlice_example
      instance_example (devices_example ''2000'')
     = Inl (Err_InitialModified, instance_example)"
    unfolding devices_example_def devices_Update_example_def StringPrefixInSlice_example_def
      instance_example_def
    by code_simp
  have c: "Update_initial_check StringPrefixInSlice_example
        (devices_example ''1000'') (devices_example ''2000'') [''initial.uid'']
     = Some Err_InitialModified"
    unfolding devices_example_def StringPrefixInSlice_example_def by code_simp
  have v: "initial_violation (map_of (devices_example ''1000'') ''data'') ''initial.uid'' ''2000''"
    unfolding devices_example_def by code_simp
  have h: "devices_Update_example (expandedDevices instance_example) ((\<lambda>ds. ds) (devices_example ''2000''))
             = (devices_example ''1000'', devices_example ''2000'', [], [''initial.uid''])
      \<and> StringPrefixInSlice_example ''initial.'' [''initial.uid'']
      \<and> (''data'', [(''type'', ''disk''), (''source'', ''tmpfs:''), (''path'', ''/mnt''),
                  (''initial.uid'', ''2000'')]) \<in> set (devices_example ''2000'')
      \<and> (''initial.uid'', ''2000'') \<in> set [(''type'', ''disk''), (''source'', ''tmpfs:''), (''path'', ''/mnt''),
                  (''initial.uid'', ''2000'')]
      \<and> HasPrefix ''initial.uid'' ''initial.''
      \<and> initial_violation (map_of (devices_example ''1000'') ''data'') ''initial.uid'' ''2000''"
    using v
    by (simp add: devices_Update_example_def instance_example_def devices_example_def
          StringPrefixInSlice_example_def HasPrefix_def)
  from Update_initial_immutable
         [of devices_Update_example instance_example "\<lambda>ds. ds" "devices_example ''2000''"
             "devices_example ''1000''" "devices_example ''2000''" "[]" "[''initial.uid'']"
             StringPrefixInSlice_example "''data''"
             "[(''type'', ''disk''), (''source'', ''tmpfs:''), (''path'', ''/mnt''),
               (''initial.uid'', ''2000'')]"
             "''initial.uid''" "''2000''" Err_InitialModified instance_example]
       h r
  have "\<exists>err. Update_until_initial_check (\<lambda>ds. ds) devices_Update_example
                StringPrefixInSlice_example instance_example (devices_example ''2000'')
              = Inl (err, instance_example)"
    by blast
  with r c v show ?thesis by simp
qed

text \<open>
  C9 as stated accepts no modification of an \<^verbatim>\<open>initial.\<close> key. A request that sets
  \<^verbatim>\<open>initial.uid\<close> of an existing device from 1000 to the empty string passes the
  check, and Update goes on with the changed devices.
\<close>

theorem Update_initial_emptied_counterexample:
  "Update_until_initial_check (\<lambda>ds. ds) devices_Update_example StringPrefixInSlice_example
      instance_example (devices_example '''')
     = Inr \<lparr>localDevices = devices_example '''', expandedDevices = devices_example ''''\<rparr>
   \<and> map_of (the (map_of (expandedDevices instance_example) ''data'')) ''initial.uid''
       = Some ''1000''
   \<and> map_of (the (map_of (devices_example '''') ''data'')) ''initial.uid'' = Some ''''"
  unfolding devices_example_def devices_Update_example_def StringPrefixInSlice_example_def
      instance_example_def
  by code_simp

subsection \<open>Status during operations\<close>

text \<open>
  C10. While an operation lock with action Start is held, statusCode returns Stopped and
  consults neither the monitor nor the PID file; while one with action Stop is held, it
  returns Ready if \<^verbatim>\<open>volatile.last_state.ready\<close> is true and Running otherwise, again
  without consulting either, whatever the QEMU process is doing.
\<close>

theorem statusCode_during_operation:
  "(op_action e = Some ActionStart \<longrightarrow> statusCode isTrue e = (Stopped, []))
   \<and> (op_action e = Some ActionStop \<longrightarrow>
        statusCode isTrue e = (if isTrue (last_state_ready e) then Ready else Running, []))"
  by (simp add: statusCode_def)

theorem statusCode_during_operation_witness:
  "statusCode (\<lambda>s. s = ''true'')
     \<lparr>op_action = Some ActionStart, last_state_ready = ''true'', qmp_connects = True,
      monitor_status = Inr ''running'', env_pid = 4242\<rparr> = (Stopped, [])
   \<and> statusCode (\<lambda>s. s = ''true'')
     \<lparr>op_action = Some ActionStop, last_state_ready = ''true'', qmp_connects = False,
      monitor_status = Inl ErrMonitorDisconnect, env_pid = 0\<rparr> = (Ready, [])
   \<and> statusCode (\<lambda>s. s = ''true'')
     \<lparr>op_action = Some ActionStop, last_state_ready = '''', qmp_connects = False,
      monitor_status = Inl ErrMonitorDisconnect, env_pid = 0\<rparr> = (Running, [])"
  using statusCode_during_operation
          [of "\<lparr>op_action = Some ActionStart, last_state_ready = ''true'',
                qmp_connects = True, monitor_status = Inr ''running'', env_pid = 4242\<rparr>"
              "\<lambda>s. s = ''true''"]
        statusCode_during_operation
          [of "\<lparr>op_action = Some ActionStop, last_state_ready = ''true'',
                qmp_connects = False, monitor_status = Inl ErrMonitorDisconnect, env_pid = 0\<rparr>"
              "\<lambda>s. s = ''true''"]
        statusCode_during_operation
          [of "\<lparr>op_action = Some ActionStop, last_state_ready = '''',
                qmp_connects = False, monitor_status = Inl ErrMonitorDisconnect, env_pid = 0\<rparr>"
              "\<lambda>s. s = ''true''"]
  by simp

end
